theory Spec2Isabelle
  imports Main "HOL-Library.Monad_Syntax"
begin


unbundle bit_operations_syntax

section \<open>The integer types of the storage unit\<close>

text \<open>
  \<^verbatim>\<open>BitField<BaseT, Fields...>\<close> stores its fields in units of type
  \<^verbatim>\<open>FieldType\<close> and computes on \<^verbatim>\<open>UnderlyingType\<close>, the integer type behind it
  (an enum base type such as \<^verbatim>\<open>std::byte\<close> is represented by its underlying type).
  An integer type is its width in bits, \<^verbatim>\<open>sizeof(T) * 8\<close>, and its signedness; its
  values are the mathematical integers in its range, in two's complement. These are the
  integer types other than \<^verbatim>\<open>bool\<close>. The class accepts \<^verbatim>\<open>bool\<close> as well, whose conversion
  is not a reduction modulo a power of two; what the accessor does over \<^verbatim>\<open>bool\<close> is
  modelled apart, at the end of the section on the accessor, and the statements of this
  theory about a base type \<open>T\<close> are about the integer types other than \<^verbatim>\<open>bool\<close>.
\<close>

record ctype =
  bits_of :: nat
  signed_of :: bool

text \<open>\<^verbatim>\<open>int\<close>, the type of the literal \<^verbatim>\<open>1\<close> and of every promoted operand.\<close>

definition int_type :: ctype where
  "int_type = \<lparr>bits_of = 32, signed_of = True\<rparr>"

text \<open>Some of the fixed-width types; \<^verbatim>\<open>std::byte\<close> is an enum over \<^verbatim>\<open>unsigned char\<close>.\<close>

definition uint8 :: ctype where
  "uint8 = \<lparr>bits_of = 8, signed_of = False\<rparr>"

definition uint16 :: ctype where
  "uint16 = \<lparr>bits_of = 16, signed_of = False\<rparr>"

definition int8 :: ctype where
  "int8 = \<lparr>bits_of = 8, signed_of = True\<rparr>"

definition int32 :: ctype where
  "int32 = \<lparr>bits_of = 32, signed_of = True\<rparr>"

text \<open>\<^verbatim>\<open>static_cast<T>(x)\<close>: the value of \<^verbatim>\<open>T\<close> congruent to \<open>x\<close> modulo \<open>2 ^ bits\<close>.\<close>

definition static_cast :: "ctype \<Rightarrow> int \<Rightarrow> int" where
  "static_cast T x =
     (if signed_of T then signed_take_bit (bits_of T - 1) x else take_bit (bits_of T) x)"

text \<open>
  Integral promotion: the operands of \<^verbatim>\<open>&\<close>, \<^verbatim>\<open>|\<close>, \<^verbatim>\<open>^\<close>, \<^verbatim>\<open>~\<close>, \<^verbatim>\<open><<\<close>, \<^verbatim>\<open>>>\<close> and of the
  arithmetic operators are converted to \<^verbatim>\<open>int\<close> first when their type is narrower
  than \<^verbatim>\<open>int\<close>; the operation is carried out in the promoted type.
\<close>

definition promote :: "ctype \<Rightarrow> ctype" where
  "promote T = (if bits_of T < 32 then int_type else T)"

text \<open>
  \<^verbatim>\<open>a << n\<close> and \<^verbatim>\<open>a >> n\<close> on an operand of the promoted type \<open>P\<close>. A negative
  count or one that reaches the width of \<open>P\<close> is undefined (\<open>None\<close>; inside a constant
  expression the program is ill-formed). Otherwise the left shift is taken modulo
  \<open>2 ^ bits\<close> and the right shift of a signed operand is arithmetic.
\<close>

definition shl :: "ctype \<Rightarrow> int \<Rightarrow> int \<Rightarrow> int option" where
  "shl P a n =
     (if 0 \<le> n \<and> n < int (bits_of P) then Some (static_cast P (push_bit (nat n) a)) else None)"

definition shr :: "ctype \<Rightarrow> int \<Rightarrow> int \<Rightarrow> int option" where
  "shr P a n = (if 0 \<le> n \<and> n < int (bits_of P) then Some (drop_bit (nat n) a) else None)"

text \<open>\<^verbatim>\<open>~a\<close> on an operand of the promoted type \<open>P\<close>.\<close>

definition bit_compl :: "ctype \<Rightarrow> int \<Rightarrow> int" where
  "bit_compl P a = static_cast P (NOT a)"

text \<open>\<open>x\<close> is a value of the type \<open>T\<close>: it lies in its range.\<close>

definition is_value :: "ctype \<Rightarrow> int \<Rightarrow> bool" where
  "is_value T x \<longleftrightarrow> static_cast T x = x"

text \<open>
  For the statements about values: \<open>V\<close> is representable in \<open>W\<close> bits of the type, and
  \<open>V\<close> reduced to its low \<open>W\<close> bits, read in two's complement when the type is signed.
\<close>

definition representable :: "ctype \<Rightarrow> nat \<Rightarrow> int \<Rightarrow> bool" where
  "representable T W V \<longleftrightarrow>
     (if signed_of T then - (2 ^ (W - 1)) \<le> V \<and> V < 2 ^ (W - 1) else 0 \<le> V \<and> V < 2 ^ W)"

definition low_bits :: "ctype \<Rightarrow> nat \<Rightarrow> int \<Rightarrow> int" where
  "low_bits T W V = (if signed_of T then signed_take_bit (W - 1) V else take_bit W V)"

text \<open>
  The arithmetic operators on two operands of the promoted type \<open>P\<close>: division
  truncates towards zero, the remainder takes the sign of the dividend. Division by
  zero and signed overflow are undefined (\<open>None\<close>); unsigned arithmetic wraps.
\<close>

datatype arith = Plus | Minus | Times | Divide | Modulo

definition cpp_div :: "int \<Rightarrow> int \<Rightarrow> int" where
  "cpp_div a b = (if (a < 0) \<noteq> (b < 0) then - (\<bar>a\<bar> div \<bar>b\<bar>) else \<bar>a\<bar> div \<bar>b\<bar>)"

definition cpp_mod :: "int \<Rightarrow> int \<Rightarrow> int" where
  "cpp_mod a b = a - b * cpp_div a b"

definition arith_result :: "arith \<Rightarrow> int \<Rightarrow> int \<Rightarrow> int option" where
  "arith_result opr a b =
     (case opr of
        Plus \<Rightarrow> Some (a + b)
      | Minus \<Rightarrow> Some (a - b)
      | Times \<Rightarrow> Some (a * b)
      | Divide \<Rightarrow> (if b = 0 then None else Some (cpp_div a b))
      | Modulo \<Rightarrow> (if b = 0 then None else Some (cpp_mod a b)))"

definition arith_op :: "ctype \<Rightarrow> arith \<Rightarrow> int \<Rightarrow> int \<Rightarrow> int option" where
  "arith_op P opr a b =
     (case arith_result opr a b of
        None \<Rightarrow> None
      | Some r \<Rightarrow> (if signed_of P \<and> static_cast P r \<noteq> r then None else Some (static_cast P r)))"

section \<open>The layout: \<^verbatim>\<open>FieldBegin\<close>, \<^verbatim>\<open>Mask\<close>, \<^verbatim>\<open>dataSize\<close>\<close>

text \<open>
  A field descriptor \<^verbatim>\<open>Field<Tag, W, D, F>\<close>. Tags are enumerators (or names),
  represented by numbers.
\<close>

record field_desc =
  Tag :: nat
  Width :: nat
  DefaultValue :: int
  Fixed :: bool

text \<open>
  \<^verbatim>\<open>FieldBegin\<close> and \<^verbatim>\<open>dataSize\<close> are computed in \<^verbatim>\<open>std::size_t\<close>, whose arithmetic is
  modulo \<open>2 ^ 64\<close>. A value of that type is a natural number below \<open>2 ^ 64\<close>; \<open>size_t x\<close>
  is the value that an expression has whose mathematical value is \<open>x\<close>. Sums, differences
  and products wrap; a quotient is taken of the wrapped operands.
\<close>

definition SIZE_MAX :: nat where
  "SIZE_MAX = 2 ^ 64 - 1"

definition size_t :: "int \<Rightarrow> nat" where
  "size_t x = nat (x mod 2 ^ 64)"

text \<open>
  \<^verbatim>\<open>BeginBit / FieldTypeBits != (BeginBit + W - 1) / FieldTypeBits\<close>; \<open>U\<close> is
  \<^verbatim>\<open>FieldTypeBits\<close>.
\<close>

definition toSkipToNextUnit :: "nat \<Rightarrow> nat \<Rightarrow> nat \<Rightarrow> bool" where
  "toSkipToNextUnit U BeginBit W \<longleftrightarrow>
     BeginBit div U \<noteq> size_t (int BeginBit + int W - 1) div U"

text \<open>\<^verbatim>\<open>((BeginBit + FieldTypeBits - 1) / FieldTypeBits) * FieldTypeBits\<close>\<close>

definition next_unit :: "nat \<Rightarrow> nat \<Rightarrow> nat" where
  "next_unit U BeginBit = size_t (int (size_t (int BeginBit + int U - 1) div U) * int U)"

fun FieldBegin_loop :: "nat \<Rightarrow> nat \<Rightarrow> nat list \<Rightarrow> nat list" where
  "FieldBegin_loop U BeginBit [] = [BeginBit]"
| "FieldBegin_loop U BeginBit (W # Ws) =
     (let B = (if toSkipToNextUnit U BeginBit W then next_unit U BeginBit else BeginBit)
      in B # FieldBegin_loop U (if W = 0 then next_unit U B else size_t (int B + int W)) Ws)"

definition FieldBegin :: "nat \<Rightarrow> nat list \<Rightarrow> nat list" where
  "FieldBegin U Widths = FieldBegin_loop U 0 Widths"

text \<open>
  The two halves of one iteration of the loop, named so that the loop can be followed
  one field at a time: where the field is put, and the value of \<^verbatim>\<open>BeginBit\<close> after it.
\<close>

definition field_pos :: "nat \<Rightarrow> nat \<Rightarrow> nat \<Rightarrow> nat" where
  "field_pos U BeginBit W =
     (if toSkipToNextUnit U BeginBit W then next_unit U BeginBit else BeginBit)"

definition field_end :: "nat \<Rightarrow> nat \<Rightarrow> nat \<Rightarrow> nat" where
  "field_end U BeginBit W =
     (if W = 0 then next_unit U (field_pos U BeginBit W)
      else size_t (int (field_pos U BeginBit W) + int W))"

text \<open>
  The bit cursor once a list of widths has been laid out: \<^verbatim>\<open>FieldBegin[NFields]\<close>. The
  cursor in front of field \<open>I\<close> is the cursor of the first \<open>I\<close> widths.
\<close>

definition cursor :: "nat \<Rightarrow> nat list \<Rightarrow> nat" where
  "cursor U Widths = FieldBegin U Widths ! length Widths"

text \<open>\<^verbatim>\<open>dataSize()\<close>: \<^verbatim>\<open>(FieldBegin[NFields] + FieldTypeBits - 1) / FieldTypeBits\<close>\<close>

definition dataSize :: "nat \<Rightarrow> nat list \<Rightarrow> nat" where
  "dataSize U Widths = size_t (int (FieldBegin U Widths ! length Widths) + int U - 1) div U"

text \<open>
  A bound on a list of widths under which no expression of the layout wraps: each
  field moves the cursor by less than its width plus one unit, and \<^verbatim>\<open>dataSize\<close> adds
  less than one more unit.
\<close>

definition fits_size_t :: "nat \<Rightarrow> nat list \<Rightarrow> bool" where
  "fits_size_t U Widths \<longleftrightarrow>
     int (sum_list Widths) + (int (length Widths) + 1) * int U \<le> 2 ^ 64"

text \<open>
  For the proofs: the same layout computed on the unbounded natural numbers. It is what
  the layout above computes for a list of widths that satisfies the bound
  (lemma \<open>FieldBegin_ideal\<close>), and no statement about the program is made in its terms.
\<close>

definition ideal_skip :: "nat \<Rightarrow> nat \<Rightarrow> nat \<Rightarrow> bool" where
  "ideal_skip U c W \<longleftrightarrow> c div U \<noteq> (if c + W = 0 then SIZE_MAX else c + W - 1) div U"

definition ideal_next_unit :: "nat \<Rightarrow> nat \<Rightarrow> nat" where
  "ideal_next_unit U c = (c + U - 1) div U * U"

definition ideal_pos :: "nat \<Rightarrow> nat \<Rightarrow> nat \<Rightarrow> nat" where
  "ideal_pos U c W = (if ideal_skip U c W then ideal_next_unit U c else c)"

definition ideal_end :: "nat \<Rightarrow> nat \<Rightarrow> nat \<Rightarrow> nat" where
  "ideal_end U c W = (if W = 0 then ideal_next_unit U (ideal_pos U c W) else ideal_pos U c W + W)"

fun ideal_loop :: "nat \<Rightarrow> nat \<Rightarrow> nat list \<Rightarrow> nat list" where
  "ideal_loop U c [] = [c]"
| "ideal_loop U c (W # Ws) = ideal_pos U c W # ideal_loop U (ideal_end U c W) Ws"

definition ideal_FieldBegin :: "nat \<Rightarrow> nat list \<Rightarrow> nat list" where
  "ideal_FieldBegin U Widths = ideal_loop U 0 Widths"

definition ideal_cursor :: "nat \<Rightarrow> nat list \<Rightarrow> nat" where
  "ideal_cursor U Widths = ideal_FieldBegin U Widths ! length Widths"

definition ideal_dataSize :: "nat \<Rightarrow> nat list \<Rightarrow> nat" where
  "ideal_dataSize U Widths = (ideal_FieldBegin U Widths ! length Widths + U - 1) div U"

text \<open>
  \<^verbatim>\<open>Mask\<close>: \<^verbatim>\<open>M |= static_cast<UnderlyingType>(1 << S); ++S;\<close> for
  \<^verbatim>\<open>min(Width[I], FieldTypeBits)\<close> rounds. \<^verbatim>\<open>1 << S\<close> is a shift of an \<^verbatim>\<open>int\<close>; the
  array is a constant expression, so a shift that is undefined rejects the layout.
\<close>

fun Mask_loop :: "ctype \<Rightarrow> int \<Rightarrow> nat \<Rightarrow> nat \<Rightarrow> int option" where
  "Mask_loop T M S 0 = Some M"
| "Mask_loop T M S (Suc J) =
     (case shl int_type 1 (int S) of
        None \<Rightarrow> None
      | Some b \<Rightarrow> Mask_loop T (static_cast T (M OR static_cast T b)) (Suc S) J)"

definition Mask_at :: "ctype \<Rightarrow> nat list \<Rightarrow> nat \<Rightarrow> int option" where
  "Mask_at T Widths I =
     Mask_loop T 0 (FieldBegin (bits_of T) Widths ! I mod bits_of T)
       (min (Widths ! I) (bits_of T))"

definition Mask :: "ctype \<Rightarrow> nat list \<Rightarrow> int list option" where
  "Mask T Widths = those (map (Mask_at T Widths) [0..<length Widths])"

text \<open>
  A predicate for the lemmas: the mask \<open>M\<close> consists of the bits \<open>S, \<dots>, E - 1\<close> of the
  unit, all of them below the sign bit when the type is signed.
\<close>

definition field_bits :: "ctype \<Rightarrow> nat \<Rightarrow> nat \<Rightarrow> int \<Rightarrow> bool" where
  "field_bits T S E M \<longleftrightarrow>
     S < E \<and> E \<le> bits_of T \<and> (signed_of T \<longrightarrow> E < bits_of T) \<and> M = push_bit S (mask (E - S))"

section \<open>The field accessor \<^verbatim>\<open>FieldProxy<FieldT, Shift, Mask>\<close>\<close>

text \<open>
  Every operator of the proxy works on the one storage unit it refers to; here it takes
  the unit's value \<open>fld\<close> and yields the value the unit holds afterwards.
\<close>

text \<open>
  \<^verbatim>\<open>MaskMsbOffset\<close>: the first \<^verbatim>\<open>Offset\<close>, counted from the top bit of the underlying
  type, at which the mask has a bit; \<open>n\<close> counts the rounds that are left.
\<close>

fun MaskMsbOffset_loop :: "ctype \<Rightarrow> int \<Rightarrow> nat \<Rightarrow> nat \<Rightarrow> nat option" where
  "MaskMsbOffset_loop T M Offset 0 = Some 0"
| "MaskMsbOffset_loop T M Offset (Suc n) =
     (case shl int_type 1 (int (bits_of T - Offset - 1)) of
        None \<Rightarrow> None
      | Some b \<Rightarrow>
          if static_cast T M AND static_cast T b \<noteq> 0 then Some Offset
          else MaskMsbOffset_loop T M (Suc Offset) n)"

definition MaskMsbOffset :: "ctype \<Rightarrow> int \<Rightarrow> nat option" where
  "MaskMsbOffset T M = MaskMsbOffset_loop T M 0 (bits_of T)"

text \<open>\<^verbatim>\<open>operator FieldType() const\<close>\<close>

definition read :: "ctype \<Rightarrow> nat \<Rightarrow> int \<Rightarrow> int \<Rightarrow> int option" where
  "read T Shift M fld =
     (if \<not> signed_of T then
        do {
          v \<leftarrow> shr (promote T) (static_cast T fld AND static_cast T M) (int Shift);
          Some (static_cast T v)
        }
      else
        do {
          Offset \<leftarrow> MaskMsbOffset T M;
          a \<leftarrow> shl (promote T) (static_cast T fld AND static_cast T M) (int Offset);
          v \<leftarrow> shr (promote T) a (int (Shift + Offset));
          Some (static_cast T v)
        })"

text \<open>
  The unit after \<^verbatim>\<open>(Field & ~Mask) | (X & Mask)\<close>, the shape shared by most of the
  assignment operators; \<open>X\<close> is the operand already shifted into place.
\<close>

definition merge_bits :: "ctype \<Rightarrow> int \<Rightarrow> int \<Rightarrow> int \<Rightarrow> int" where
  "merge_bits T M fld X =
     static_cast T
       ((static_cast T fld AND bit_compl (promote T) (static_cast T M)) OR
        (X AND static_cast T M))"

text \<open>\<^verbatim>\<open>operator=(T Rhs)\<close>\<close>

definition assign :: "ctype \<Rightarrow> nat \<Rightarrow> int \<Rightarrow> int \<Rightarrow> int \<Rightarrow> int option" where
  "assign T Shift M fld Rhs =
     do {
       x \<leftarrow> shl (promote T) (static_cast T Rhs) (int Shift);
       Some (merge_bits T M fld x)
     }"

text \<open>
  \<^verbatim>\<open>operator+=\<close>, \<^verbatim>\<open>-=\<close>, \<^verbatim>\<open>*=\<close>, \<^verbatim>\<open>/=\<close>, \<^verbatim>\<open>%=\<close>:
  \<^verbatim>\<open>(static_cast<FieldType>(*this) + Rhs) << Shift & Mask\<close>. The right-hand operand is
  taken to be a value of the field's type.
\<close>

definition arith_assign ::
  "ctype \<Rightarrow> arith \<Rightarrow> nat \<Rightarrow> int \<Rightarrow> int \<Rightarrow> int \<Rightarrow> int option" where
  "arith_assign T opr Shift M fld Rhs =
     do {
       v \<leftarrow> read T Shift M fld;
       r \<leftarrow> arith_op (promote T) opr v Rhs;
       x \<leftarrow> shl (promote T) r (int Shift);
       Some (merge_bits T M fld x)
     }"

text \<open>\<^verbatim>\<open>operator&=\<close>: \<^verbatim>\<open>Field & (Rhs << Shift | ~Mask)\<close>\<close>

definition and_assign :: "ctype \<Rightarrow> nat \<Rightarrow> int \<Rightarrow> int \<Rightarrow> int \<Rightarrow> int option" where
  "and_assign T Shift M fld Rhs =
     do {
       x \<leftarrow> shl (promote T) (static_cast T Rhs) (int Shift);
       Some (static_cast T
         (static_cast T fld AND (x OR bit_compl (promote T) (static_cast T M))))
     }"

text \<open>\<^verbatim>\<open>operator|=\<close>: \<^verbatim>\<open>Field | Rhs << Shift & Mask\<close>\<close>

definition or_assign :: "ctype \<Rightarrow> nat \<Rightarrow> int \<Rightarrow> int \<Rightarrow> int \<Rightarrow> int option" where
  "or_assign T Shift M fld Rhs =
     do {
       x \<leftarrow> shl (promote T) (static_cast T Rhs) (int Shift);
       Some (static_cast T (static_cast T fld OR (x AND static_cast T M)))
     }"

text \<open>\<^verbatim>\<open>operator^=\<close>: \<^verbatim>\<open>Field & ~Mask | (Field ^ Rhs << Shift) & Mask\<close>\<close>

definition xor_assign :: "ctype \<Rightarrow> nat \<Rightarrow> int \<Rightarrow> int \<Rightarrow> int \<Rightarrow> int option" where
  "xor_assign T Shift M fld Rhs =
     do {
       x \<leftarrow> shl (promote T) (static_cast T Rhs) (int Shift);
       Some (merge_bits T M fld (static_cast T fld XOR x))
     }"

text \<open>\<^verbatim>\<open>operator<<=\<close>: \<^verbatim>\<open>Field & ~Mask | (Field & Mask) << Rhs & Mask\<close>\<close>

definition shl_assign :: "ctype \<Rightarrow> nat \<Rightarrow> int \<Rightarrow> int \<Rightarrow> int \<Rightarrow> int option" where
  "shl_assign T Shift M fld Rhs =
     do {
       x \<leftarrow> shl (promote T) (static_cast T fld AND static_cast T M) Rhs;
       Some (merge_bits T M fld x)
     }"

text \<open>
  \<^verbatim>\<open>operator>>=\<close>: \<^verbatim>\<open>Field & ~Mask | (Field & Mask) >> Rhs & Mask\<close> for an unsigned
  underlying type, \<^verbatim>\<open>Field & ~Mask | static_cast<FieldType>(*this) << Shift >> Rhs & Mask\<close>
  for a signed one.
\<close>

definition shr_assign :: "ctype \<Rightarrow> nat \<Rightarrow> int \<Rightarrow> int \<Rightarrow> int \<Rightarrow> int option" where
  "shr_assign T Shift M fld Rhs =
     (if \<not> signed_of T then
        do {
          x \<leftarrow> shr (promote T) (static_cast T fld AND static_cast T M) Rhs;
          Some (merge_bits T M fld x)
        }
      else
        do {
          v \<leftarrow> read T Shift M fld;
          a \<leftarrow> shl (promote T) v (int Shift);
          x \<leftarrow> shr (promote T) a Rhs;
          Some (merge_bits T M fld x)
        })"

text \<open>
  The assignment operators as one type; \<^verbatim>\<open>++\<close> and \<^verbatim>\<open>--\<close> are \<^verbatim>\<open>*this += 1\<close> and
  \<^verbatim>\<open>*this -= 1\<close>.
\<close>

datatype assignment =
    Assign int
  | ArithAssign arith int
  | AndAssign int
  | OrAssign int
  | XorAssign int
  | ShlAssign int
  | ShrAssign int
  | Increment
  | Decrement

fun apply_assignment ::
  "ctype \<Rightarrow> nat \<Rightarrow> int \<Rightarrow> int \<Rightarrow> assignment \<Rightarrow> int option" where
  "apply_assignment T Shift M fld (Assign Rhs) = assign T Shift M fld Rhs"
| "apply_assignment T Shift M fld (ArithAssign opr Rhs) = arith_assign T opr Shift M fld Rhs"
| "apply_assignment T Shift M fld (AndAssign Rhs) = and_assign T Shift M fld Rhs"
| "apply_assignment T Shift M fld (OrAssign Rhs) = or_assign T Shift M fld Rhs"
| "apply_assignment T Shift M fld (XorAssign Rhs) = xor_assign T Shift M fld Rhs"
| "apply_assignment T Shift M fld (ShlAssign Rhs) = shl_assign T Shift M fld Rhs"
| "apply_assignment T Shift M fld (ShrAssign Rhs) = shr_assign T Shift M fld Rhs"
| "apply_assignment T Shift M fld Increment = arith_assign T Plus Shift M fld 1"
| "apply_assignment T Shift M fld Decrement = arith_assign T Minus Shift M fld 1"

text \<open>
  The base type \<^verbatim>\<open>bool\<close>: \<^verbatim>\<open>static_cast<bool>(x)\<close> is \<^verbatim>\<open>x != 0\<close>, the operands of the
  operators are promoted to \<^verbatim>\<open>int\<close>, and \<^verbatim>\<open>bool\<close> is an unsigned type of 8 bits. The mask of
  a field, the conversion operator and \<^verbatim>\<open>operator=\<close> of the proxy, with \<open>0\<close> for \<^verbatim>\<open>false\<close> and
  \<open>1\<close> for \<^verbatim>\<open>true\<close>.
\<close>

definition bool_cast :: "int \<Rightarrow> int" where
  "bool_cast x = (if x = 0 then 0 else 1)"

fun bool_Mask_loop :: "int \<Rightarrow> nat \<Rightarrow> nat \<Rightarrow> int option" where
  "bool_Mask_loop M S 0 = Some M"
| "bool_Mask_loop M S (Suc J) =
     (case shl int_type 1 (int S) of
        None \<Rightarrow> None
      | Some b \<Rightarrow> bool_Mask_loop (bool_cast (M OR bool_cast b)) (Suc S) J)"

definition bool_read :: "nat \<Rightarrow> int \<Rightarrow> int \<Rightarrow> int option" where
  "bool_read Shift M fld =
     do {
       v \<leftarrow> shr int_type (bool_cast fld AND bool_cast M) (int Shift);
       Some (bool_cast v)
     }"

definition bool_assign :: "nat \<Rightarrow> int \<Rightarrow> int \<Rightarrow> int \<Rightarrow> int option" where
  "bool_assign Shift M fld Rhs =
     do {
       x \<leftarrow> shl int_type (bool_cast Rhs) (int Shift);
       Some (bool_cast
         ((bool_cast fld AND bit_compl int_type (bool_cast M)) OR (x AND bool_cast M)))
     }"

section \<open>The storage \<^verbatim>\<open>Data\<close> and \<^verbatim>\<open>get\<close>\<close>

text \<open>
  What stops a program: the \<^verbatim>\<open>static_assert\<close>s and deleted overloads of the class
  (the first three), a constant expression that cannot be evaluated, and undefined
  behaviour of an operator.
\<close>

datatype error =
    field_not_found
  | size_zero_member
  | read_only_member
  | ill_formed_constant
  | undefined_behaviour

text \<open>
  \<^verbatim>\<open>Data\<close>: \<^verbatim>\<open>dataSize()\<close> units, value-initialised, then for every field
  \<^verbatim>\<open>F[FieldBegin[I] / FieldTypeBits] = (F[...] & ~Mask[I]) | ((DefaultValue[I] << (FieldBegin[I] % FieldTypeBits)) & Mask[I])\<close>.
  An index outside the array is not a constant expression.
\<close>

definition Data_step ::
  "ctype \<Rightarrow> nat list \<Rightarrow> int list \<Rightarrow> field_desc list \<Rightarrow> int list \<Rightarrow> nat \<Rightarrow> int list option" where
  "Data_step T B Ms Fields F I =
     (if B ! I div bits_of T < length F then
        do {
          x \<leftarrow> shl (promote T) (static_cast T (static_cast T (DefaultValue (Fields ! I))))
                 (int (B ! I mod bits_of T));
          Some (F[B ! I div bits_of T := merge_bits T (Ms ! I) (F ! (B ! I div bits_of T)) x])
        }
      else None)"

fun Data_loop ::
  "ctype \<Rightarrow> nat list \<Rightarrow> int list \<Rightarrow> field_desc list \<Rightarrow> int list \<Rightarrow> nat list \<Rightarrow> int list option" where
  "Data_loop T B Ms Fields F [] = Some F"
| "Data_loop T B Ms Fields F (I # Is) =
     (case Data_step T B Ms Fields F I of
        None \<Rightarrow> None
      | Some F' \<Rightarrow> Data_loop T B Ms Fields F' Is)"

definition Data :: "ctype \<Rightarrow> field_desc list \<Rightarrow> int list option" where
  "Data T Fields =
     (case Mask T (map Width Fields) of
        None \<Rightarrow> None
      | Some Ms \<Rightarrow>
          Data_loop T (FieldBegin (bits_of T) (map Width Fields)) Ms Fields
            (replicate (dataSize (bits_of T) (map Width Fields)) 0) [0..<length Fields])"

text \<open>
  A proxy: the index of the unit it refers to, its two template arguments, and whether
  its \<^verbatim>\<open>FieldT\<close> is const.
\<close>

record proxy =
  unit_of :: nat
  Shift_of :: nat
  Mask_of :: int
  const_of :: bool

text \<open>
  \<^verbatim>\<open>get<I>()\<close> on a non-const \<^verbatim>\<open>BitField\<close>. The proxy type is instantiated with
  \<^verbatim>\<open>Mask[I]\<close>, and its \<^verbatim>\<open>static_assert(static_cast<UnderlyingType>(Mask) > 0)\<close> is
  checked then.
\<close>

definition get_at :: "ctype \<Rightarrow> field_desc list \<Rightarrow> nat \<Rightarrow> error + proxy" where
  "get_at T Fields I =
     (if length Fields \<le> I then Inl field_not_found
      else
        case Mask T (map Width Fields) of
          None \<Rightarrow> Inl ill_formed_constant
        | Some Ms \<Rightarrow>
            if Ms ! I > 0 then
              Inr \<lparr>unit_of = FieldBegin (bits_of T) (map Width Fields) ! I div bits_of T,
                   Shift_of = FieldBegin (bits_of T) (map Width Fields) ! I mod bits_of T,
                   Mask_of = Ms ! I,
                   const_of = Fixed (Fields ! I)\<rparr>
            else Inl size_zero_member)"

text \<open>\<^verbatim>\<open>index<Query>()\<close>: the first field with the tag, \<^verbatim>\<open>NFields\<close> when there is none.\<close>

fun index_loop :: "nat \<Rightarrow> nat list \<Rightarrow> nat \<Rightarrow> nat" where
  "index_loop Query [] I = I"
| "index_loop Query (t # ts) I = (if Query = t then I else index_loop Query ts (Suc I))"

definition index :: "field_desc list \<Rightarrow> nat \<Rightarrow> nat" where
  "index Fields Query = index_loop Query (map Tag Fields) 0"

text \<open>\<^verbatim>\<open>get<Query>(BF)\<close>\<close>

definition get :: "ctype \<Rightarrow> field_desc list \<Rightarrow> nat \<Rightarrow> error + proxy" where
  "get T Fields Query =
     (if index Fields Query < length Fields then get_at T Fields (index Fields Query)
      else Inl field_not_found)"

text \<open>Reading through a proxy, and an assignment operator applied through it.\<close>

definition proxy_read :: "ctype \<Rightarrow> proxy \<Rightarrow> int list \<Rightarrow> int option" where
  "proxy_read T p D = read T (Shift_of p) (Mask_of p) (D ! unit_of p)"

definition proxy_assign :: "ctype \<Rightarrow> proxy \<Rightarrow> assignment \<Rightarrow> int list \<Rightarrow> error + int list" where
  "proxy_assign T p a D =
     (if const_of p then Inl read_only_member
      else
        case apply_assignment T (Shift_of p) (Mask_of p) (D ! unit_of p) a of
          None \<Rightarrow> Inl undefined_behaviour
        | Some Field' \<Rightarrow> Inr (D[unit_of p := Field']))"

section \<open>Layouts used as examples\<close>

text \<open>
  The layouts of the repository's tests: \<^verbatim>\<open>Field<Tag::A, 3>, Field<Tag::B, 1>, Field<Tag::C, 5>\<close>
  of \<^verbatim>\<open>Alignment.cpp\<close>, and \<^verbatim>\<open>Field<Tag::A, 4>, Field<Tag::B, 4>\<close> of \<^verbatim>\<open>Operator.cpp\<close>;
  the layout of the example in the documentation of \<^verbatim>\<open>BitField\<close>, that is
  \<^verbatim>\<open>Field<"a", 3>, ConstField<"b", 2, 3>, Padding<2>, Field<"c", 1, 1>\<close>;
  and layouts that no test has: one 12-bit field, wider than an 8-bit unit; one
  3-bit field whose default value 9 does not fit its width; a 4-bit field followed
  by a 28-bit one, which over a 32-bit unit reaches the most significant bit; a field
  of width \<^verbatim>\<open>SIZE_MAX\<close> followed by a 3-bit one, behind which the cursor wraps; a 5-bit
  field followed by one of width \<^verbatim>\<open>SIZE_MAX - 1\<close>, that is \<open>2 ^ 64 - 2\<close>, whose last bit
  wraps; and an 8-bit field followed by a zero-width descriptor, which ends the list at
  a unit boundary.
\<close>

definition abc :: "field_desc list" where
  "abc = [\<lparr>Tag = 0, Width = 3, DefaultValue = 0, Fixed = False\<rparr>,
          \<lparr>Tag = 1, Width = 1, DefaultValue = 0, Fixed = False\<rparr>,
          \<lparr>Tag = 2, Width = 5, DefaultValue = 0, Fixed = False\<rparr>]"

definition nibbles :: "field_desc list" where
  "nibbles = [\<lparr>Tag = 0, Width = 4, DefaultValue = 0, Fixed = False\<rparr>,
              \<lparr>Tag = 1, Width = 4, DefaultValue = 0, Fixed = False\<rparr>]"

definition wide :: "field_desc list" where
  "wide = [\<lparr>Tag = 0, Width = 12, DefaultValue = 0, Fixed = False\<rparr>]"



definition sign_field :: "field_desc list" where
  "sign_field = [\<lparr>Tag = 0, Width = 4, DefaultValue = 0, Fixed = False\<rparr>,
                 \<lparr>Tag = 1, Width = 28, DefaultValue = 0, Fixed = False\<rparr>]"

definition wrapped :: "field_desc list" where
  "wrapped = [\<lparr>Tag = 0, Width = SIZE_MAX, DefaultValue = 0, Fixed = False\<rparr>,
              \<lparr>Tag = 1, Width = 3, DefaultValue = 0, Fixed = False\<rparr>]"

definition tail_wrapped :: "field_desc list" where
  "tail_wrapped = [\<lparr>Tag = 0, Width = 5, DefaultValue = 0, Fixed = False\<rparr>,
                   \<lparr>Tag = 1, Width = 18446744073709551614, DefaultValue = 255, Fixed = False\<rparr>]"

definition trailing_marker :: "field_desc list" where
  "trailing_marker = [\<lparr>Tag = 0, Width = 8, DefaultValue = 0, Fixed = False\<rparr>,
                      \<lparr>Tag = 1, Width = 0, DefaultValue = 0, Fixed = True\<rparr>]"

section \<open>Facts about the layout on unbounded natural numbers\<close>

lemma ceil_div_cases:
  fixes c U :: nat
  assumes "0 < U"
  shows "(c + U - 1) div U = (if c mod U = 0 then c div U else c div U + 1)"
proof -
  define q r where "q = c div U" and "r = c mod U"
  have c: "c = U * q + r" and r: "r < U" using assms by (simp_all add: q_def r_def)
  show ?thesis
  proof (cases "r = 0")
    case True
    have "(c + U - 1) div U = q"
    proof (rule div_nat_eqI)
      show "U * q \<le> c + U - 1" using c True assms by simp
      show "c + U - 1 < U * Suc q" using c True assms by simp
    qed
    then show ?thesis using True by (simp add: q_def r_def)
  next
    case False
    have "(c + U - 1) div U = q + 1"
    proof (rule div_nat_eqI)
      show "U * (q + 1) \<le> c + U - 1" using c False by simp
      show "c + U - 1 < U * Suc (q + 1)" using c r by simp
    qed
    then show ?thesis using False by (simp add: q_def r_def)
  qed
qed

lemma ideal_next_unit_cases:
  assumes "0 < U"
  shows "ideal_next_unit U c = (if c mod U = 0 then c else (c div U + 1) * U)"
proof -
  have "c mod U = 0 \<Longrightarrow> c div U * U = c"
    using div_mult_mod_eq [of c U] by simp
  then show ?thesis
    unfolding ideal_next_unit_def ceil_div_cases [OF assms] by simp
qed

lemma ideal_next_unit_ge:
  assumes "0 < U"
  shows "c \<le> ideal_next_unit U c"
proof -
  have "c = c div U * U + c mod U" by simp
  moreover have "c mod U < U" using assms by simp
  ultimately have "c < c div U * U + U" by linarith
  then show ?thesis using assms by (simp add: ideal_next_unit_cases)
qed

lemma ideal_next_unit_lt:
  assumes "0 < U"
  shows "ideal_next_unit U c < c + U"
proof -
  have "c = c div U * U + c mod U" by simp
  then have "c mod U \<noteq> 0 \<Longrightarrow> c div U * U < c" by linarith
  then show ?thesis using assms by (auto simp add: ideal_next_unit_cases)
qed

lemma ideal_next_unit_mod: "ideal_next_unit U c mod U = 0"
  by (simp add: ideal_next_unit_def)

lemma ideal_next_unit_idem: "0 < U \<Longrightarrow> c mod U = 0 \<Longrightarrow> ideal_next_unit U c = c"
  by (simp add: ideal_next_unit_cases)

lemma ideal_pos_zero:
  assumes "0 < U"
  shows "ideal_pos U c 0 = c"
proof (cases "ideal_skip U c 0")
  case False
  then show ?thesis by (simp add: ideal_pos_def)
next
  case True
  have "c mod U = 0"
  proof (cases "c = 0")
    case False
    with True have ne: "c div U \<noteq> (c - 1) div U" by (simp add: ideal_skip_def)
    show ?thesis
    proof (rule ccontr)
      assume r: "c mod U \<noteq> 0"
      have "(c - 1) div U = c div U"
      proof (rule div_nat_eqI)
        have c: "c = U * (c div U) + c mod U" by simp
        show "U * (c div U) \<le> c - 1" using c r by linarith
        have "c mod U < U" using assms by simp
        moreover have "U * Suc (c div U) = U * (c div U) + U" by simp
        ultimately show "c - 1 < U * Suc (c div U)" using c by linarith
      qed
      with ne show False by simp
    qed
  qed simp
  then show ?thesis using True assms by (simp add: ideal_pos_def ideal_next_unit_idem)
qed

lemma ideal_pos_straddle:
  "0 < W \<Longrightarrow> ideal_pos U c W =
     (if c div U \<noteq> (c + W - 1) div U then ideal_next_unit U c else c)"
  by (simp add: ideal_pos_def ideal_skip_def)

lemma ideal_pos_ge: "0 < U \<Longrightarrow> c \<le> ideal_pos U c W"
  by (simp add: ideal_pos_def ideal_next_unit_ge)

lemma ideal_pos_lt: "0 < U \<Longrightarrow> ideal_pos U c W < c + U"
  by (simp add: ideal_pos_def ideal_next_unit_lt)

lemma ideal_pos_unit:
  assumes "0 < U" "0 < W" "W \<le> U"
  shows "ideal_pos U c W div U = (ideal_pos U c W + W - 1) div U"
proof (cases "c div U \<noteq> (c + W - 1) div U")
  case False
  then show ?thesis using assms by (simp add: ideal_pos_straddle)
next
  case True
  define k where "k = (c + U - 1) div U"
  have k: "ideal_next_unit U c = U * k" by (simp add: ideal_next_unit_def k_def)
  have "(U * k + W - 1) div U = k"
  proof (rule div_nat_eqI)
    show "U * k \<le> U * k + W - 1" using assms by simp
    have "U * Suc k = U * k + U" by simp
    then show "U * k + W - 1 < U * Suc k" using assms by linarith
  qed
  then show ?thesis using True assms k by (simp add: ideal_pos_straddle)
qed

lemma ideal_pos_oversized:
  assumes "0 < U" "U < W"
  shows "ideal_pos U c W mod U = 0"
proof -
  have "Suc (c div U) * U \<le> c + U" by simp
  then have "Suc (c div U) \<le> (c + U) div U" using assms
    by (simp only: less_eq_div_iff_mult_less_eq)
  then have "c div U < (c + U) div U" by simp
  also have "\<dots> \<le> (c + W - 1) div U" using assms by (intro div_le_mono) simp
  finally show ?thesis using assms by (simp add: ideal_pos_straddle ideal_next_unit_mod)
qed

lemma ideal_pos_fits:
  assumes "0 < U" 
  shows "ideal_pos U c W mod U + min W U \<le> U"
proof -
  consider "W = 0" | "0 < W" "W \<le> U" | "U < W" by linarith
  then show ?thesis
  proof cases
    case 1
    then show ?thesis using assms by (simp add: less_imp_le)
  next
    case 2
    define p where "p = ideal_pos U c W"
    have d: "p div U = (p + W - 1) div U" using ideal_pos_unit [OF assms 2] by (simp add: p_def)
    have "p mod U + W - 1 < U"
    proof (rule ccontr)
      assume "\<not> p mod U + W - 1 < U"
      then have "U \<le> p mod U + (W - 1)" using 2 by simp
      moreover have "(p div U + 1) * U = p div U * U + U" by (simp add: algebra_simps)
      moreover have "p div U * U + p mod U = p" by simp
      ultimately have "(p div U + 1) * U \<le> p + W - 1" using 2 by linarith
      then have "p div U + 1 \<le> (p + W - 1) div U" using assms
        by (simp add: less_eq_div_iff_mult_less_eq)
      with d show False by simp
    qed
    then show ?thesis using 2 by (simp add: p_def)
  next
    case 3
    then show ?thesis using assms by (simp add: ideal_pos_oversized)
  qed
qed

lemma ideal_end_zero: "0 < U \<Longrightarrow> ideal_end U c 0 = ideal_next_unit U c"
  by (simp add: ideal_end_def ideal_pos_zero)

lemma ideal_end_pos: "0 < W \<Longrightarrow> ideal_end U c W = ideal_pos U c W + W"
  by (simp add: ideal_end_def)

lemma ideal_end_ge: "0 < U \<Longrightarrow> ideal_pos U c W + W \<le> ideal_end U c W"
  by (simp add: ideal_end_def ideal_next_unit_ge)

lemma ideal_end_ge_cursor: "0 < U \<Longrightarrow> c \<le> ideal_end U c W"
  using ideal_end_ge [of U c W] ideal_pos_ge [of U c W] by linarith


lemma ideal_loop_step:
  "ideal_loop U c (W # Ws) = ideal_pos U c W # ideal_loop U (ideal_end U c W) Ws"
  by simp

declare ideal_loop.simps(2) [simp del]

lemma length_ideal_loop: "length (ideal_loop U c Ws) = Suc (length Ws)"
  by (induction Ws arbitrary: c) (simp_all add: ideal_loop_step)

lemma ideal_loop_nth:
  "I < length Ws \<Longrightarrow>
   ideal_loop U c Ws ! I = ideal_pos U (ideal_loop U c (take I Ws) ! I) (Ws ! I)"
proof (induction Ws arbitrary: c I)
  case Nil
  then show ?case by simp
next
  case (Cons W Ws)
  show ?case
  proof (cases I)
    case 0
    then show ?thesis by (simp add: ideal_loop_step)
  next
    case (Suc I')
    with Cons.prems have "I' < length Ws" by simp
    from Cons.IH [OF this] show ?thesis using Suc by (simp add: ideal_loop_step)
  qed
qed

lemma ideal_loop_take_Suc:
  "I < length Ws \<Longrightarrow>
   ideal_loop U c (take (Suc I) Ws) ! Suc I =
   ideal_end U (ideal_loop U c (take I Ws) ! I) (Ws ! I)"
proof (induction Ws arbitrary: c I)
  case Nil
  then show ?case by simp
next
  case (Cons W Ws)
  show ?case
  proof (cases I)
    case 0
    then show ?thesis by (simp add: ideal_loop_step)
  next
    case (Suc I')
    with Cons.prems have "I' < length Ws" by simp
    from Cons.IH [OF this] show ?thesis using Suc by (simp add: ideal_loop_step)
  qed
qed

lemma ideal_cursor_Nil: "ideal_cursor U [] = 0"
  by (simp add: ideal_cursor_def ideal_FieldBegin_def)

lemma ideal_cursor_take:
  "I \<le> length Ws \<Longrightarrow> ideal_cursor U (take I Ws) = ideal_loop U 0 (take I Ws) ! I"
  by (simp add: ideal_cursor_def ideal_FieldBegin_def min_def)

lemma ideal_FieldBegin_nth:
  "I < length Ws \<Longrightarrow> ideal_FieldBegin U Ws ! I = ideal_pos U (ideal_cursor U (take I Ws)) (Ws ! I)"
  by (simp add: ideal_cursor_take ideal_FieldBegin_def ideal_loop_nth)

lemma ideal_FieldBegin_last: "ideal_FieldBegin U Ws ! length Ws = ideal_cursor U Ws"
  by (simp add: ideal_cursor_def)

lemma length_ideal_FieldBegin: "length (ideal_FieldBegin U Ws) = Suc (length Ws)"
  by (simp add: ideal_FieldBegin_def length_ideal_loop)

lemma ideal_cursor_take_Suc:
  "I < length Ws \<Longrightarrow>
   ideal_cursor U (take (Suc I) Ws) = ideal_end U (ideal_cursor U (take I Ws)) (Ws ! I)"
  by (simp add: ideal_cursor_take ideal_loop_take_Suc Suc_leI)

lemma ideal_cursor_mono:
  assumes "0 < U" "I \<le> J" "J \<le> length Ws"
  shows "ideal_cursor U (take I Ws) \<le> ideal_cursor U (take J Ws)"
  using assms(2,3)
proof (induction J rule: dec_induct)
  case base
  show ?case by simp
next
  case (step n)
  then have "ideal_cursor U (take I Ws) \<le> ideal_cursor U (take n Ws)" by simp
  also have "\<dots> \<le> ideal_cursor U (take (Suc n) Ws)"
    using step.prems assms(1) by (simp add: ideal_cursor_take_Suc ideal_end_ge_cursor)
  finally show ?case .
qed

lemma ideal_FieldBegin_ge_cursor:
  assumes "0 < U" "I \<le> length Ws"
  shows "ideal_cursor U (take I Ws) \<le> ideal_FieldBegin U Ws ! I"
proof (cases "I = length Ws")
  case True
  then show ?thesis by (simp add: ideal_FieldBegin_last)
next
  case False
  with assms have "I < length Ws" by simp
  then show ?thesis using assms(1) by (simp add: ideal_FieldBegin_nth ideal_pos_ge)
qed

lemma ideal_FieldBegin_end:
  assumes "0 < U" "I < J" "J \<le> length Ws"
  shows "ideal_FieldBegin U Ws ! I + Ws ! I \<le> ideal_FieldBegin U Ws ! J"
proof -
  have I: "I < length Ws" using assms by simp
  have "ideal_FieldBegin U Ws ! I + Ws ! I \<le> ideal_cursor U (take (Suc I) Ws)"
    using I assms(1) by (simp add: ideal_FieldBegin_nth ideal_cursor_take_Suc ideal_end_ge)
  also have "\<dots> \<le> ideal_cursor U (take J Ws)"
    using assms by (intro ideal_cursor_mono) simp_all
  also have "\<dots> \<le> ideal_FieldBegin U Ws ! J"
    using assms by (intro ideal_FieldBegin_ge_cursor) simp_all
  finally show ?thesis .
qed

lemma ideal_FieldBegin_mono:
  assumes "0 < U" "I \<le> J" "J \<le> length Ws"
  shows "ideal_FieldBegin U Ws ! I \<le> ideal_FieldBegin U Ws ! J"
proof (cases "I = J")
  case True
  then show ?thesis by simp
next
  case False
  with assms have "I < J" by simp
  from ideal_FieldBegin_end [OF assms(1) this assms(3)] show ?thesis by simp
qed

lemma ideal_unit_in_range:
  assumes "0 < U" "I < length Ws" "0 < Ws ! I"
  shows "ideal_FieldBegin U Ws ! I div U < ideal_dataSize U Ws"
proof -
  have "ideal_FieldBegin U Ws ! I + Ws ! I \<le> ideal_FieldBegin U Ws ! length Ws"
    using assms by (intro ideal_FieldBegin_end) simp_all
  then have "ideal_FieldBegin U Ws ! I + U \<le> ideal_FieldBegin U Ws ! length Ws + U - 1"
    using assms by linarith
  then have "(ideal_FieldBegin U Ws ! I + U) div U \<le> (ideal_FieldBegin U Ws ! length Ws + U - 1) div U"
    by (rule div_le_mono)
  moreover have "(ideal_FieldBegin U Ws ! I + U) div U = Suc (ideal_FieldBegin U Ws ! I div U)"
    using assms(1) div_add_self2 [of U "ideal_FieldBegin U Ws ! I"] by simp
  ultimately show ?thesis by (simp add: ideal_dataSize_def)
qed

lemma ideal_same_unit_shift:
  assumes "0 < U" "I < J" "J < length Ws"
    and "ideal_FieldBegin U Ws ! I div U = ideal_FieldBegin U Ws ! J div U"
  shows "ideal_FieldBegin U Ws ! I mod U + Ws ! I \<le> ideal_FieldBegin U Ws ! J mod U"
proof -
  define a b where "a = ideal_FieldBegin U Ws ! I" and "b = ideal_FieldBegin U Ws ! J"
  have "a + Ws ! I \<le> b" using ideal_FieldBegin_end [of U I J Ws] assms by (simp add: a_def b_def)
  moreover have "a = a div U * U + a mod U" "b = b div U * U + b mod U" by simp_all
  moreover have "a div U = b div U" using assms by (simp add: a_def b_def)
  ultimately have "a mod U + Ws ! I \<le> b mod U" by (metis add.assoc add_le_cancel_left)
  then show ?thesis by (simp add: a_def b_def)
qed

section \<open>The layout of the program and the layout on unbounded numbers\<close>

text \<open>
  Under the bound \<open>fits_size_t\<close> no expression of \<^verbatim>\<open>FieldBegin\<close> and \<^verbatim>\<open>dataSize\<close> wraps, and
  the program computes the layout of the previous section.
\<close>

lemma size_t_of_nat:
  assumes "n < 2 ^ 64"
  shows "size_t (int n) = n"
proof -
  have "int n < int (2 ^ 64)" using assms by (simp only: of_nat_less_iff)
  then have "int n mod 2 ^ 64 = int n" by simp
  then show ?thesis by (simp add: size_t_def)
qed

lemma size_t_minus_one: "size_t (- 1) = SIZE_MAX"
  by (simp add: size_t_def SIZE_MAX_def)

lemma skip_ideal:
  assumes "c + W \<le> 2 ^ 64"
  shows "toSkipToNextUnit U c W = ideal_skip U c W"
proof (cases "c + W = 0")
  case True
  then show ?thesis by (simp add: toSkipToNextUnit_def ideal_skip_def size_t_minus_one)
next
  case False
  then have "int c + int W - 1 = int (c + W - 1)" by linarith
  moreover have "c + W - 1 < 2 ^ 64" using assms False by linarith
  ultimately have "size_t (int c + int W - 1) = c + W - 1" by (simp only: size_t_of_nat)
  then show ?thesis using False by (auto simp add: toSkipToNextUnit_def ideal_skip_def)
qed

lemma next_unit_ideal:
  assumes "0 < U" "c + U \<le> 2 ^ 64"
  shows "next_unit U c = ideal_next_unit U c"
proof -
  have "int c + int U - 1 = int (c + U - 1)" using assms(1) by linarith
  moreover have "c + U - 1 < 2 ^ 64" using assms by linarith
  ultimately have 1: "size_t (int c + int U - 1) = c + U - 1" by (simp only: size_t_of_nat)
  have "(c + U - 1) div U * U \<le> c + U - 1" by simp
  then have "(c + U - 1) div U * U < 2 ^ 64" using assms by linarith
  then have "size_t (int ((c + U - 1) div U * U)) = (c + U - 1) div U * U"
    by (rule size_t_of_nat)
  then show ?thesis unfolding next_unit_def ideal_next_unit_def 1 by (simp only: of_nat_mult)
qed

lemma pos_ideal:
  assumes "0 < U" "c + W \<le> 2 ^ 64" "c + U \<le> 2 ^ 64"
  shows "field_pos U c W = ideal_pos U c W"
  unfolding field_pos_def ideal_pos_def skip_ideal [OF assms(2)] next_unit_ideal [OF assms(1,3)] ..

lemma end_ideal:
  assumes "0 < U" "c + W + 2 * U \<le> 2 ^ 64"
  shows "field_end U c W = ideal_end U c W"
proof -
  have p: "field_pos U c W = ideal_pos U c W" using assms by (intro pos_ideal) simp_all
  have lt: "ideal_pos U c W < c + U" using assms(1) by (rule ideal_pos_lt)
  have "ideal_pos U c W + U \<le> 2 ^ 64" using lt assms(2) by linarith
  then have n: "next_unit U (ideal_pos U c W) = ideal_next_unit U (ideal_pos U c W)"
    using assms(1) by (intro next_unit_ideal)
  have "ideal_pos U c W + W < 2 ^ 64" using lt assms by linarith
  then have "size_t (int (ideal_pos U c W + W)) = ideal_pos U c W + W" by (rule size_t_of_nat)
  then have s: "size_t (int (ideal_pos U c W) + int W) = ideal_pos U c W + W"
    by (simp only: of_nat_add)
  show ?thesis unfolding field_end_def ideal_end_def p n s ..
qed

lemma ideal_end_le:
  assumes "0 < U"
  shows "ideal_end U c W \<le> c + W + U"
proof (cases "W = 0")
  case True
  then show ?thesis using assms ideal_next_unit_lt [OF assms, of c]
    by (simp add: ideal_end_zero)
next
  case False
  then show ?thesis using ideal_pos_lt [OF assms, of c W] by (simp add: ideal_end_pos)
qed

lemma FieldBegin_loop_step:
  "FieldBegin_loop U c (W # Ws) = field_pos U c W # FieldBegin_loop U (field_end U c W) Ws"
  by (simp add: field_pos_def field_end_def Let_def)

declare FieldBegin_loop.simps(2) [simp del]

lemma loop_ideal:
  assumes "0 < U"
  shows "c + sum_list Ws + (length Ws + 1) * U \<le> 2 ^ 64 \<Longrightarrow>
         FieldBegin_loop U c Ws = ideal_loop U c Ws"
proof (induction Ws arbitrary: c)
  case Nil
  then show ?case by simp
next
  case (Cons W Ws)
  have eq: "c + sum_list (W # Ws) + (length (W # Ws) + 1) * U =
            c + W + U + sum_list Ws + (length Ws + 1) * U"
    by (simp add: algebra_simps)
  have b: "c + W + 2 * U \<le> 2 ^ 64"
  proof -
    have "c + W + 2 * U \<le> c + W + U + sum_list Ws + (length Ws + 1) * U" by simp
    then show ?thesis using Cons.prems unfolding eq by (rule order_trans)
  qed
  have p: "field_pos U c W = ideal_pos U c W" using assms b by (intro pos_ideal) simp_all
  have e: "field_end U c W = ideal_end U c W" using assms b by (rule end_ideal)
  have "ideal_end U c W + sum_list Ws + (length Ws + 1) * U
          \<le> c + W + U + sum_list Ws + (length Ws + 1) * U"
    using ideal_end_le [OF assms, of c W] by simp
  then have "ideal_end U c W + sum_list Ws + (length Ws + 1) * U \<le> 2 ^ 64"
    using Cons.prems unfolding eq by (rule order_trans)
  from Cons.IH [OF this] show ?case by (simp add: FieldBegin_loop_step ideal_loop_step p e)
qed

lemma ideal_loop_last_le:
  assumes "0 < U"
  shows "ideal_loop U c Ws ! length Ws \<le> c + sum_list Ws + length Ws * U"
proof (induction Ws arbitrary: c)
  case Nil
  show ?case by (simp add: ideal_loop.simps(1))
next
  case (Cons W Ws)
  have "ideal_loop U (ideal_end U c W) Ws ! length Ws
          \<le> ideal_end U c W + sum_list Ws + length Ws * U" by (rule Cons.IH)
  also have "\<dots> \<le> c + W + U + sum_list Ws + length Ws * U"
    using ideal_end_le [OF assms, of c W] by simp
  finally show ?case by (simp add: ideal_loop_step algebra_simps)
qed

lemma fits_size_t_nat:
  "fits_size_t U Ws \<longleftrightarrow> sum_list Ws + (length Ws + 1) * U \<le> 2 ^ 64"
proof -
  have "int (sum_list Ws) + (int (length Ws) + 1) * int U = int (sum_list Ws + (length Ws + 1) * U)"
    by (simp add: algebra_simps)
  moreover have "(2::int) ^ 64 = int (2 ^ 64)" by simp
  ultimately show ?thesis unfolding fits_size_t_def by (simp only: of_nat_le_iff)
qed

lemma fits_take:
  assumes "fits_size_t U Ws"
  shows "fits_size_t U (take I Ws)"
proof -
  have "sum_list (take I Ws) \<le> sum_list (take I Ws) + sum_list (drop I Ws)" by simp
  also have "\<dots> = sum_list Ws" by (simp flip: sum_list_append)
  finally have 1: "sum_list (take I Ws) \<le> sum_list Ws" .
  have "(length (take I Ws) + 1) * U \<le> (length Ws + 1) * U" by (intro mult_le_mono1) simp
  with 1 show ?thesis using assms unfolding fits_size_t_nat by linarith
qed

lemma FieldBegin_ideal:
  assumes "0 < U" "fits_size_t U Ws"
  shows "FieldBegin U Ws = ideal_FieldBegin U Ws"
  using assms(2) loop_ideal [OF assms(1), of 0 Ws]
  unfolding FieldBegin_def ideal_FieldBegin_def fits_size_t_nat by simp

lemma cursor_ideal:
  assumes "0 < U" "fits_size_t U Ws"
  shows "cursor U Ws = ideal_cursor U Ws"
  by (simp add: cursor_def ideal_cursor_def FieldBegin_ideal [OF assms])

lemma ideal_cursor_le:
  assumes "0 < U"
  shows "ideal_cursor U Ws \<le> sum_list Ws + length Ws * U"
  using ideal_loop_last_le [OF assms, of 0 Ws] by (simp add: ideal_cursor_def ideal_FieldBegin_def)

lemma cursor_take_ideal:
  assumes "0 < U" "fits_size_t U Ws"
  shows "cursor U (take I Ws) = ideal_cursor U (take I Ws)"
  using assms(1) fits_take [OF assms(2)] by (rule cursor_ideal)

lemma fits_cursor_bound:
  assumes "0 < U" "fits_size_t U Ws"
  shows "ideal_cursor U (take I Ws) + U \<le> 2 ^ 64"
proof -
  have "ideal_cursor U (take I Ws) + U \<le> sum_list (take I Ws) + (length (take I Ws) + 1) * U"
    using ideal_cursor_le [OF assms(1), of "take I Ws"] by simp
  then show ?thesis using fits_take [OF assms(2), of I] unfolding fits_size_t_nat by (rule order_trans)
qed

lemma next_unit_cursor_ideal:
  assumes "0 < U" "fits_size_t U Ws"
  shows "next_unit U (ideal_cursor U (take I Ws)) = ideal_next_unit U (ideal_cursor U (take I Ws))"
  using assms(1) fits_cursor_bound [OF assms] by (rule next_unit_ideal)

lemma dataSize_ideal:
  assumes "0 < U" "fits_size_t U Ws"
  shows "dataSize U Ws = ideal_dataSize U Ws"
proof -
  define c where "c = ideal_FieldBegin U Ws ! length Ws"
  have "c + U \<le> 2 ^ 64"
    using fits_cursor_bound [OF assms, of "length Ws"] by (simp add: c_def ideal_cursor_def)
  then have "c + U - 1 < 2 ^ 64" using assms(1) by linarith
  moreover have "int c + int U - 1 = int (c + U - 1)" using assms(1) by linarith
  ultimately have "size_t (int c + int U - 1) = c + U - 1" by (simp only: size_t_of_nat)
  then show ?thesis
    unfolding dataSize_def ideal_dataSize_def FieldBegin_ideal [OF assms] c_def [symmetric] by simp
qed

text \<open>The facts about the layout that the later sections use, for the layout of the program.\<close>

lemma FieldBegin_nth:
  assumes "0 < U" "fits_size_t U Ws" "I < length Ws"
  shows "FieldBegin U Ws ! I = ideal_pos U (ideal_cursor U (take I Ws)) (Ws ! I)"
  unfolding FieldBegin_ideal [OF assms(1,2)] using assms(3) by (rule ideal_FieldBegin_nth)

lemma shift_fits:
  assumes "0 < U" "fits_size_t U Ws" "I < length Ws"
  shows "FieldBegin U Ws ! I mod U + min (Ws ! I) U \<le> U"
  unfolding FieldBegin_nth [OF assms] using assms(1) by (rule ideal_pos_fits)

lemma FieldBegin_end:
  assumes "0 < U" "fits_size_t U Ws" "I < J" "J \<le> length Ws"
  shows "FieldBegin U Ws ! I + Ws ! I \<le> FieldBegin U Ws ! J"
  unfolding FieldBegin_ideal [OF assms(1,2)] using assms(1,3,4) by (rule ideal_FieldBegin_end)


lemma unit_in_range:
  assumes "0 < U" "fits_size_t U Ws" "I < length Ws" "0 < Ws ! I"
  shows "FieldBegin U Ws ! I div U < dataSize U Ws"
  unfolding FieldBegin_ideal [OF assms(1,2)] dataSize_ideal [OF assms(1,2)]
  using assms(1,3,4) by (rule ideal_unit_in_range)

lemma same_unit_shift:
  assumes "0 < U" "fits_size_t U Ws" "I < J" "J < length Ws"
    and "FieldBegin U Ws ! I div U = FieldBegin U Ws ! J div U"
  shows "FieldBegin U Ws ! I mod U + Ws ! I \<le> FieldBegin U Ws ! J mod U"
  using assms(5) unfolding FieldBegin_ideal [OF assms(1,2)]
  by (rule ideal_same_unit_shift [OF assms(1,3,4)])

lemma length_FieldBegin_loop: "length (FieldBegin_loop U c Ws) = Suc (length Ws)"
  by (induction Ws arbitrary: c) (simp_all add: FieldBegin_loop_step)

lemma length_FieldBegin: "length (FieldBegin U Ws) = Suc (length Ws)"
  by (simp add: FieldBegin_def length_FieldBegin_loop)

lemma Mask_at_zero_width:
  "I < length Widths \<Longrightarrow> Widths ! I = 0 \<Longrightarrow> Mask_at T Widths I = Some 0"
  by (simp add: Mask_at_def)

text \<open>Rules that follow the loop on a given list of widths, one field at a time.\<close>

lemma FieldBegin_loop_eval:
  "FieldBegin_loop U c [] = [c]"
  "FieldBegin_loop U c (W # Ws) = field_pos U c W # FieldBegin_loop U (field_end U c W) Ws"
  by (simp_all add: FieldBegin_loop_step)

lemmas layout_eval =
  FieldBegin_def FieldBegin_loop_eval field_pos_def field_end_def toSkipToNextUnit_def
  next_unit_def size_t_def SIZE_MAX_def cursor_def dataSize_def

section \<open>The layout invariants on unbounded numbers\<close>

text \<open>
  What a zero-width descriptor, a straddling field and the layout as a whole satisfy when
  nothing wraps; the claims about the layout of the program are obtained from these
  through the lemmas of the previous section.
\<close>

lemma ideal_padding_marker:
  assumes "0 < bits_of T" "I < length Widths" "Widths ! I = 0"
  shows "ideal_cursor (bits_of T) (take (Suc I) Widths) =
           ideal_next_unit (bits_of T) (ideal_cursor (bits_of T) (take I Widths)) \<and>
         bits_of T dvd ideal_cursor (bits_of T) (take (Suc I) Widths) \<and>
         ideal_cursor (bits_of T) (take I Widths) \<le> ideal_cursor (bits_of T) (take (Suc I) Widths) \<and>
         ideal_cursor (bits_of T) (take (Suc I) Widths) < ideal_cursor (bits_of T) (take I Widths) + bits_of T \<and>
         (bits_of T dvd ideal_cursor (bits_of T) (take I Widths) \<longrightarrow>
            ideal_cursor (bits_of T) (take (Suc I) Widths) = ideal_cursor (bits_of T) (take I Widths)) \<and>
         Mask_at T Widths I = Some 0 \<and>
         ideal_FieldBegin (bits_of T) Widths ! Suc I = ideal_cursor (bits_of T) (take (Suc I) Widths)"
proof -
  define U c c' where "U = bits_of T" and "c = ideal_cursor U (take I Widths)"
    and "c' = ideal_cursor U (take (Suc I) Widths)"
  have U: "0 < U" using assms by (simp add: U_def)
  have c': "c' = ideal_next_unit U c"
    using assms U by (simp add: c_def c'_def ideal_cursor_take_Suc ideal_end_zero)
  have al: "c' mod U = 0" by (simp add: c' ideal_next_unit_mod)
  have nxt: "ideal_FieldBegin U Widths ! Suc I = c'"
  proof (cases "Suc I = length Widths")
    case True
    then show ?thesis using ideal_FieldBegin_last [of U Widths] by (simp add: c'_def)
  next
    case False
    then have lt: "Suc I < length Widths" using assms by simp
    have "ideal_pos U c' (Widths ! Suc I) = c'"
      using U al by (simp add: ideal_pos_def ideal_next_unit_idem)
    then show ?thesis using lt by (simp add: ideal_FieldBegin_nth c'_def)
  qed
  have "U dvd c'" using al by (simp add: mod_eq_0_iff_dvd)
  moreover have "c \<le> c'" using U by (simp add: c' ideal_next_unit_ge)
  moreover have "c' < c + U" using U by (simp add: c' ideal_next_unit_lt)
  moreover have "U dvd c \<longrightarrow> c' = c" using U by (simp add: c' ideal_next_unit_idem mod_eq_0_iff_dvd)
  moreover have "Mask_at T Widths I = Some 0" using assms by (simp add: Mask_at_zero_width)
  ultimately show ?thesis using c' nxt by (simp add: U_def c_def c'_def)
qed

lemma ideal_layout_invariant:
  assumes "0 < U"
  shows "(\<forall>I J. I \<le> J \<and> J \<le> length Widths \<longrightarrow>
            ideal_FieldBegin U Widths ! I \<le> ideal_FieldBegin U Widths ! J) \<and>
         (\<forall>I J. I < length Widths \<and> J < length Widths \<and> I \<noteq> J \<and>
                0 < Widths ! I \<and> 0 < Widths ! J \<longrightarrow>
            ideal_FieldBegin U Widths ! I + Widths ! I \<le> ideal_FieldBegin U Widths ! J \<or>
            ideal_FieldBegin U Widths ! J + Widths ! J \<le> ideal_FieldBegin U Widths ! I) \<and>
         (\<forall>I. I < length Widths \<and> 0 < Widths ! I \<and> Widths ! I \<le> U \<longrightarrow>
            ideal_FieldBegin U Widths ! I div U = (ideal_FieldBegin U Widths ! I + Widths ! I - 1) div U)"
proof (intro conjI allI impI)
  fix I J
  assume "I \<le> J \<and> J \<le> length Widths"
  then show "ideal_FieldBegin U Widths ! I \<le> ideal_FieldBegin U Widths ! J"
    using assms by (simp add: ideal_FieldBegin_mono)
next
  fix I J
  assume h: "I < length Widths \<and> J < length Widths \<and> I \<noteq> J \<and> 0 < Widths ! I \<and> 0 < Widths ! J"
  then consider "I < J" | "J < I" by linarith
  then show "ideal_FieldBegin U Widths ! I + Widths ! I \<le> ideal_FieldBegin U Widths ! J \<or>
             ideal_FieldBegin U Widths ! J + Widths ! J \<le> ideal_FieldBegin U Widths ! I"
  proof cases
    case 1
    then show ?thesis using ideal_FieldBegin_end [of U I J Widths] assms h by simp
  next
    case 2
    then show ?thesis using ideal_FieldBegin_end [of U J I Widths] assms h by simp
  qed
next
  fix I
  assume "I < length Widths \<and> 0 < Widths ! I \<and> Widths ! I \<le> U"
  then show "ideal_FieldBegin U Widths ! I div U = (ideal_FieldBegin U Widths ! I + Widths ! I - 1) div U"
    using assms by (simp add: ideal_FieldBegin_nth ideal_pos_unit)
qed

lemma ideal_alignment_and_size:
  assumes U: "0 < U" and I: "I < length Widths" and W: "0 < Widths ! I"
  shows "(ideal_cursor U (take I Widths) div U \<noteq> (ideal_cursor U (take I Widths) + Widths ! I - 1) div U \<longrightarrow>
            ideal_FieldBegin U Widths ! I = ideal_next_unit U (ideal_cursor U (take I Widths)) \<and>
            U dvd ideal_FieldBegin U Widths ! I \<and>
            ideal_cursor U (take I Widths) \<le> ideal_FieldBegin U Widths ! I \<and>
            ideal_FieldBegin U Widths ! I < ideal_cursor U (take I Widths) + U) \<and>
         (ideal_cursor U (take I Widths) div U = (ideal_cursor U (take I Widths) + Widths ! I - 1) div U \<longrightarrow>
            ideal_FieldBegin U Widths ! I = ideal_cursor U (take I Widths)) \<and>
         ideal_cursor U (take (Suc I) Widths) = ideal_FieldBegin U Widths ! I + Widths ! I \<and>
         ideal_cursor U Widths \<le> ideal_dataSize U Widths * U \<and>
         ideal_dataSize U Widths * U < ideal_cursor U Widths + U"
proof -
  define c where "c = ideal_cursor U (take I Widths)"
  have pos: "ideal_FieldBegin U Widths ! I = (if c div U \<noteq> (c + Widths ! I - 1) div U then ideal_next_unit U c else c)"
    using I W by (simp add: ideal_FieldBegin_nth ideal_pos_straddle c_def)
  have nu: "U dvd ideal_next_unit U c" "c \<le> ideal_next_unit U c" "ideal_next_unit U c < c + U"
    using ideal_next_unit_ge [OF U, of c] ideal_next_unit_lt [OF U, of c] by (simp_all add: ideal_next_unit_def)
  have cur: "ideal_cursor U (take (Suc I) Widths) = ideal_FieldBegin U Widths ! I + Widths ! I"
    using I W by (simp add: ideal_cursor_take_Suc ideal_end_pos ideal_FieldBegin_nth)
  have ds: "ideal_dataSize U Widths * U = ideal_next_unit U (ideal_cursor U Widths)"
    by (simp add: ideal_dataSize_def ideal_next_unit_def ideal_FieldBegin_last)
  have sz: "ideal_cursor U Widths \<le> ideal_dataSize U Widths * U" "ideal_dataSize U Widths * U < ideal_cursor U Widths + U"
    unfolding ds using U by (simp_all add: ideal_next_unit_ge ideal_next_unit_lt)
  show ?thesis
    using pos nu cur sz unfolding c_def [symmetric] by simp
qed

section \<open>Facts about the integer operators and the masks\<close>

lemma bit_static_cast:
  "bit (static_cast T x) i \<longleftrightarrow>
     (if signed_of T then bit x (min (bits_of T - 1) i) else i < bits_of T \<and> bit x i)"
  by (simp add: static_cast_def bit_signed_take_bit_iff bit_take_bit_iff)

lemma bit_static_cast_low:
  assumes "i < bits_of T"
  shows "bit (static_cast T x) i = bit x i"
proof -
  have "min (bits_of T - 1) i = i" using assms by linarith
  then show ?thesis using assms by (simp add: bit_static_cast)
qed

lemma static_cast_eqI:
  assumes "0 < bits_of T" "\<And>i. i < bits_of T \<Longrightarrow> bit a i = bit b i"
  shows "static_cast T a = static_cast T b"
proof (rule bit_eqI)
  fix i
  have "min (bits_of T - 1) i < bits_of T" using assms(1) by linarith
  then show "bit (static_cast T a) i = bit (static_cast T b) i"
    using assms(2) by (auto simp add: bit_static_cast)
qed

lemma static_cast_idem: "static_cast T (static_cast T x) = static_cast T x"
  by (simp add: static_cast_def)

lemma bits_of_promote: "bits_of T \<le> bits_of (promote T)"
  by (simp add: promote_def int_type_def)


lemma bit_shr:
  assumes "shr P a n = Some s"
  shows "bit s i \<longleftrightarrow> bit a (nat n + i)"
  using assms by (auto simp add: shr_def bit_drop_bit_eq split: if_splits)

lemma bit_compl_low: "i < bits_of P \<Longrightarrow> bit (bit_compl P a) i \<longleftrightarrow> \<not> bit a i"
  by (simp add: bit_compl_def bit_static_cast_low bit_not_iff)

lemma bit_merge_bits_low:
  assumes "i < bits_of T"
  shows "bit (merge_bits T M f X) i \<longleftrightarrow> (if bit M i then bit X i else bit f i)"
proof -
  have "i < bits_of (promote T)" using assms bits_of_promote [of T] by simp
  then show ?thesis using assms
    by (simp add: merge_bits_def bit_static_cast_low bit_or_iff bit_and_iff bit_compl_low)
qed


lemma is_value_static_cast: "is_value T (static_cast T x)"
  by (simp add: is_value_def static_cast_idem)

lemma is_value_0: "is_value T 0"
  by (simp add: is_value_def static_cast_def)

lemma bit_one_shl:
  assumes "shl int_type 1 (int S) = Some b"
  shows "S < 32 \<and> (bit b i \<longleftrightarrow> i = S \<or> (S = 31 \<and> 31 \<le> i))"
proof -
  have S: "S < 32" and b: "b = signed_take_bit 31 (push_bit S 1)"
    using assms by (auto simp add: shl_def int_type_def static_cast_def split: if_splits)
  have "bit b i \<longleftrightarrow> min 31 i = S"
    by (auto simp add: b bit_signed_take_bit_iff bit_exp_iff)
  then show ?thesis using S by (auto simp add: min_def)
qed

lemma Mask_loop_bits:
  assumes "Mask_loop T M S J = Some M'" "i < bits_of T"
  shows "(J = 0 \<or> S + J \<le> 32) \<and>
         (bit M' i \<longleftrightarrow> bit M i \<or> (S \<le> i \<and> i < S + J) \<or> (0 < J \<and> S + J = 32 \<and> 31 \<le> i))"
  using assms
proof (induction J arbitrary: M S)
  case 0
  then show ?case by auto
next
  case (Suc J)
  from Suc.prems(1) obtain b where b: "shl int_type 1 (int S) = Some b"
    and rec: "Mask_loop T (static_cast T (M OR static_cast T b)) (Suc S) J = Some M'"
    by (auto split: option.splits)
  have S32: "S < 32" using bit_one_shl [OF b, of 0] by simp
  have bb: "bit b i \<longleftrightarrow> i = S \<or> (S = 31 \<and> 31 \<le> i)" using bit_one_shl [OF b, of i] by simp
  note IH = Suc.IH [OF rec Suc.prems(2)]
  have M1: "bit (static_cast T (M OR static_cast T b)) i \<longleftrightarrow> bit M i \<or> i = S \<or> (S = 31 \<and> 31 \<le> i)"
    using Suc.prems(2) bb by (simp add: bit_static_cast_low bit_or_iff)
  have len: "S + Suc J \<le> 32" using IH S32 by auto
  show ?case
  proof (cases "J = 0")
    case True
    then show ?thesis using IH M1 len by auto
  next
    case False
    then have "S < 31" using len by simp
    then show ?thesis using IH M1 len False by auto
  qed
qed

lemma Mask_loop_Some:
  "J = 0 \<or> S + J \<le> 32 \<Longrightarrow> \<exists>M'. Mask_loop T M S J = Some M'"
proof (induction J arbitrary: M S)
  case 0
  then show ?case by simp
next
  case (Suc J)
  then have "S < 32" by simp
  then obtain b where b: "shl int_type 1 (int S) = Some b"
    by (simp add: shl_def int_type_def)
  have "J = 0 \<or> Suc S + J \<le> 32" using Suc.prems by simp
  from Suc.IH [OF this] show ?case using b by simp
qed

lemma Mask_loop_value:
  "Mask_loop T M S J = Some M' \<Longrightarrow> is_value T M \<Longrightarrow> is_value T M'"
proof (induction J arbitrary: M S)
  case 0
  then show ?case by simp
next
  case (Suc J)
  from Suc.prems(1) obtain b where
    rec: "Mask_loop T (static_cast T (M OR static_cast T b)) (Suc S) J = Some M'"
    by (auto split: option.splits)
  from Suc.IH [OF rec is_value_static_cast] show ?case .
qed

lemma those_map_nth:
  "those (map f xs) = Some ys \<Longrightarrow> length ys = length xs \<and> (\<forall>i < length xs. f (xs ! i) = Some (ys ! i))"
proof (induction xs arbitrary: ys)
  case Nil
  then show ?case by simp
next
  case (Cons x xs)
  from Cons.prems obtain y ys' where y: "f x = Some y" and ys': "those (map f xs) = Some ys'"
    and ys: "ys = y # ys'"
    by (auto split: option.splits)
  from Cons.IH [OF ys'] show ?case using y ys by (auto simp add: nth_Cons split: nat.splits)
qed

lemma Mask_nth:
  assumes "Mask T Widths = Some Ms" "I < length Widths"
  shows "length Ms = length Widths" "Mask_at T Widths I = Some (Ms ! I)"
  using those_map_nth [OF assms(1) [unfolded Mask_def]] assms(2) by simp_all

lemma bit_field_bits: "field_bits T S E M \<Longrightarrow> bit M i \<longleftrightarrow> S \<le> i \<and> i < E"
  by (auto simp add: field_bits_def bit_push_bit_iff bit_mask_iff)

lemma is_value_iff_bits:
  "is_value T x \<longleftrightarrow>
     (\<forall>i. bit x i \<longleftrightarrow> (if signed_of T then bit x (min (bits_of T - 1) i) else i < bits_of T \<and> bit x i))"
  unfolding is_value_def by (metis bit_eq_iff bit_static_cast)

lemma is_value_bit:
  "is_value T x \<Longrightarrow>
     bit x i \<longleftrightarrow> (if signed_of T then bit x (min (bits_of T - 1) i) else i < bits_of T \<and> bit x i)"
  using is_value_iff_bits by blast

lemma is_value_eqI:
  assumes "is_value T a" "is_value T b" "0 < bits_of T"
    and "\<And>i. i < bits_of T \<Longrightarrow> bit a i = bit b i"
  shows "a = b"
  using static_cast_eqI [OF assms(3,4)] assms(1,2) by (simp add: is_value_def)

lemma is_value_negative:
  assumes "is_value T x" "signed_of T"
  shows "x < 0 \<longleftrightarrow> bit x (bits_of T - 1)"
proof -
  have "x = signed_take_bit (bits_of T - 1) x"
    using assms by (simp add: is_value_def static_cast_def)
  then show ?thesis by (metis signed_take_bit_negative_iff)
qed

lemma is_value_nonneg:
  assumes "is_value T x" "\<not> signed_of T"
  shows "0 \<le> x"
proof -
  have "x = take_bit (bits_of T) x"
    using assms by (simp add: is_value_def static_cast_def)
  then show ?thesis by (metis take_bit_nonnegative)
qed


lemma Mask_at_shape:
  assumes M: "Mask_at T Widths I = Some M" and I: "I < length Widths" and pos: "0 < M"
    and fits: "fits_size_t (bits_of T) Widths"
  shows "\<exists>E. field_bits T (FieldBegin (bits_of T) Widths ! I mod bits_of T) E M \<and>
             0 < Widths ! I \<and>
             (E = FieldBegin (bits_of T) Widths ! I mod bits_of T + min (Widths ! I) (bits_of T) \<or>
              (E = bits_of T \<and> 32 < bits_of T \<and>
               FieldBegin (bits_of T) Widths ! I mod bits_of T + min (Widths ! I) (bits_of T) = 32))"
proof -
  define U S J where "U = bits_of T" and "S = FieldBegin U Widths ! I mod U"
    and "J = min (Widths ! I) U"
  have loop: "Mask_loop T 0 S J = Some M"
    using M by (simp add: Mask_at_def U_def S_def J_def)
  have J: "0 < J"
  proof (rule ccontr)
    assume "\<not> 0 < J"
    then have "M = 0" using loop by simp
    with pos show False by simp
  qed
  then have U: "0 < U" by (simp add: J_def)
  have fit: "S + J \<le> U"
    using shift_fits [OF U fits [folded U_def] I] by (simp add: S_def J_def)
  have val: "is_value T M" using Mask_loop_value [OF loop is_value_0] .
  have low: "bit M i \<longleftrightarrow> (S \<le> i \<and> i < S + J) \<or> (S + J = 32 \<and> 31 \<le> i)" if "i < U" for i
    using Mask_loop_bits [OF loop, of i] that J by (simp add: U_def)
  define E where "E = (if S + J = 32 \<and> 32 < U then U else S + J)"
  have lowE: "bit M i \<longleftrightarrow> S \<le> i \<and> i < E" if "i < U" for i
    using low [OF that] that fit J by (auto simp add: E_def)
  have SE: "S < E" "E \<le> U" using J fit by (auto simp add: E_def)
  have sg: "E < U" if "signed_of T"
  proof (rule ccontr)
    assume "\<not> E < U"
    then have "E = U" using SE by simp
    then have "bit M (U - 1)" using lowE [of "U - 1"] U SE by simp
    then have "M < 0" using is_value_negative [OF val that] by (simp add: U_def)
    with pos show False by simp
  qed
  have all: "bit M i \<longleftrightarrow> S \<le> i \<and> i < E" for i
  proof (cases "i < U")
    case True
    then show ?thesis by (rule lowE)
  next
    case False
    show ?thesis
    proof (cases "signed_of T")
      case True
      have "min (U - 1) i = U - 1" using False by simp
      then have "bit M i = bit M (U - 1)" using is_value_bit [OF val, of i] True by (simp add: U_def)
      also have "\<dots> = False"
      proof -
        have "\<not> U - 1 < E" using sg [OF True] by linarith
        then show ?thesis using lowE [of "U - 1"] U by simp
      qed
      finally show ?thesis using False SE by simp
    next
      case F: False
      then have "\<not> bit M i" using is_value_bit [OF val, of i] False by (simp add: U_def)
      then show ?thesis using False SE by simp
    qed
  qed
  have "M = push_bit S (mask (E - S))"
    by (rule bit_eqI) (auto simp add: all bit_push_bit_iff bit_mask_iff)
  then have "field_bits T S E M" using SE sg by (simp add: field_bits_def U_def)
  moreover have "E = S + J \<or> (E = U \<and> 32 < U \<and> S + J = 32)" by (simp add: E_def)
  moreover have "0 < Widths ! I" using J by (simp add: J_def)
  ultimately show ?thesis unfolding U_def S_def J_def by blast
qed

lemma get_at_InrD:
  assumes "get_at T Fields I = Inr p"
  shows "I < length Fields"
    and "\<exists>Ms. Mask T (map Width Fields) = Some Ms \<and> Mask_of p = Ms ! I \<and> 0 < Ms ! I"
    and "unit_of p = FieldBegin (bits_of T) (map Width Fields) ! I div bits_of T"
    and "Shift_of p = FieldBegin (bits_of T) (map Width Fields) ! I mod bits_of T"
    and "const_of p = Fixed (Fields ! I)"
  using assms by (auto simp add: get_at_def split: if_splits option.splits)

lemma get_at_shape:
  assumes "get_at T Fields I = Inr p" and fits: "fits_size_t (bits_of T) (map Width Fields)"
  shows "\<exists>E. field_bits T (Shift_of p) E (Mask_of p) \<and>
             0 < Width (Fields ! I) \<and>
             (E = Shift_of p + min (Width (Fields ! I)) (bits_of T) \<or>
              (E = bits_of T \<and> 32 < bits_of T \<and>
               Shift_of p + min (Width (Fields ! I)) (bits_of T) = 32))"
proof -
  note d = get_at_InrD [OF assms(1)]
  from d(2) obtain Ms where Ms: "Mask T (map Width Fields) = Some Ms"
    and m: "Mask_of p = Ms ! I" and pos: "0 < Ms ! I" by blast
  have I: "I < length (map Width Fields)" using d(1) by simp
  have at: "Mask_at T (map Width Fields) I = Some (Ms ! I)" using Mask_nth(2) [OF Ms I] .
  from Mask_at_shape [OF at I pos fits] show ?thesis using d(1) by (simp add: m d(4))
qed

lemma field_bits_value: "field_bits T S E M \<Longrightarrow> static_cast T M = M"
proof -
  assume fb: "field_bits T S E M"
  have b: "bit M i \<longleftrightarrow> S \<le> i \<and> i < E" for i using bit_field_bits [OF fb] .
  have E: "S < E" "E \<le> bits_of T" "signed_of T \<Longrightarrow> E < bits_of T"
    using fb by (simp_all add: field_bits_def)
  show ?thesis
  proof (rule bit_eqI)
    fix i
    show "bit (static_cast T M) i = bit M i"
      using E by (auto simp add: bit_static_cast b min_def)
  qed
qed

lemma bits_of_promote_cases:
  "bits_of (promote T) = (if bits_of T < 32 then 32 else bits_of T)"
  by (simp add: promote_def int_type_def)

lemma signed_of_promote:
  "signed_of (promote T) = (if bits_of T < 32 then True else signed_of T)"
  by (simp add: promote_def int_type_def)

lemma and_eq_0_iff_bits: "(a::int) AND b = 0 \<longleftrightarrow> (\<forall>i. \<not> (bit a i \<and> bit b i))"
  by (auto simp add: bit_eq_iff bit_and_iff)

lemma MaskMsbOffset_loop_eq:
  assumes fb: "field_bits T S E M" and sg: "signed_of T" and U: "bits_of T \<le> 32"
    and "Offset + n = bits_of T" "Offset \<le> bits_of T - E"
  shows "MaskMsbOffset_loop T M Offset n = Some (bits_of T - E)"
  using assms(4,5)
proof (induction n arbitrary: Offset)
  case 0
  have "0 < E" "E < bits_of T" using fb sg by (simp_all add: field_bits_def)
  with 0 have False by linarith
  then show ?case ..
next
  case (Suc n)
  define k where "k = bits_of T - Offset - 1"
  have E: "S < E" "E < bits_of T" using fb sg by (simp_all add: field_bits_def)
  have k: "k < bits_of T" "k < 32" "E - 1 \<le> k" using Suc.prems U E by (simp_all add: k_def)
  obtain b where b: "shl int_type 1 (int k) = Some b"
    using k by (simp add: shl_def int_type_def)
  have bb: "bit b i \<longleftrightarrow> i = k \<or> (k = 31 \<and> 31 \<le> i)" for i using bit_one_shl [OF b, of i] by simp
  have M: "static_cast T M = M" using field_bits_value [OF fb] .
  have mb: "bit M i \<longleftrightarrow> S \<le> i \<and> i < E" for i using bit_field_bits [OF fb] .
  have cb: "bit M i \<and> bit (static_cast T b) i \<longleftrightarrow> i = k \<and> k = E - 1" for i
  proof (cases "S \<le> i \<and> i < E")
    case True
    then have "min (bits_of T - 1) i = i" using E by linarith
    then have "bit (static_cast T b) i \<longleftrightarrow> bit b i" using sg by (simp add: bit_static_cast)
    also have "\<dots> \<longleftrightarrow> i = k" using True E U unfolding bb by linarith
    finally have "bit (static_cast T b) i \<longleftrightarrow> i = k" .
    moreover have "i = k \<Longrightarrow> k = E - 1" using True k by linarith
    ultimately show ?thesis using True unfolding mb by blast
  next
    case False
    moreover have "\<not> (S \<le> E - 1 \<and> E - 1 < E) \<Longrightarrow> False" using E by linarith
    ultimately show ?thesis unfolding mb by blast
  qed
  have step: "MaskMsbOffset_loop T M Offset (Suc n) =
      (if M AND static_cast T b \<noteq> 0 then Some Offset else MaskMsbOffset_loop T M (Suc Offset) n)"
    by (simp only: MaskMsbOffset_loop.simps b [unfolded k_def] M option.case)
  show ?case
  proof (cases "k = E - 1")
    case True
    then have "bit M k \<and> bit (static_cast T b) k" using cb [of k] by simp
    then have nz: "M AND static_cast T b \<noteq> 0" unfolding and_eq_0_iff_bits by blast
    have "Offset = bits_of T - E" using True Suc.prems E unfolding k_def by linarith
    then show ?thesis unfolding step using nz by simp
  next
    case False
    then have z: "M AND static_cast T b = 0" unfolding and_eq_0_iff_bits by (simp add: cb)
    have "Suc Offset + n = bits_of T" using Suc.prems by simp
    moreover have "Suc Offset \<le> bits_of T - E" using False Suc.prems k unfolding k_def by linarith
    ultimately have ih: "MaskMsbOffset_loop T M (Suc Offset) n = Some (bits_of T - E)"
      by (rule Suc.IH)
    show ?thesis unfolding step using z ih by simp
  qed
qed

lemma MaskMsbOffset_eq:
  assumes "field_bits T S E M" "signed_of T" "bits_of T \<le> 32"
  shows "MaskMsbOffset T M = Some (bits_of T - E)"
  unfolding MaskMsbOffset_def by (rule MaskMsbOffset_loop_eq [OF assms]) simp_all

lemma MaskMsbOffset_wide:
  assumes "32 < bits_of T"
  shows "MaskMsbOffset T M = None"
proof -
  obtain n where n: "bits_of T = Suc n" using assms by (cases "bits_of T") simp_all
  have "shl int_type 1 (int (bits_of T - 0 - 1)) = None"
    using assms by (simp add: shl_def int_type_def)
  then show ?thesis unfolding MaskMsbOffset_def n by (simp add: n)
qed

lemma masked_field:
  assumes fb: "field_bits T S E M"
  shows "static_cast T fld AND static_cast T M = push_bit S (take_bit (E - S) (drop_bit S fld))"
proof (rule bit_eqI)
  fix i
  have E: "S < E" "E \<le> bits_of T" "signed_of T \<Longrightarrow> E < bits_of T"
    using fb by (simp_all add: field_bits_def)
  have M: "static_cast T M = M" using field_bits_value [OF fb] .
  have mb: "bit M i \<longleftrightarrow> S \<le> i \<and> i < E" using bit_field_bits [OF fb] .
  show "bit (static_cast T fld AND static_cast T M) i =
        bit (push_bit S (take_bit (E - S) (drop_bit S fld))) i"
  proof (cases "S \<le> i \<and> i < E")
    case True
    then have "i < bits_of T" using E by simp
    then have "bit (static_cast T fld) i = bit fld i" by (rule bit_static_cast_low)
    moreover have "i - S < E - S" "S + (i - S) = i" using True by auto
    ultimately show ?thesis using True
      by (simp add: M mb bit_and_iff bit_push_bit_iff bit_take_bit_iff bit_drop_bit_eq)
  next
    case False
    then have "\<not> (S \<le> i \<and> i - S < E - S)" by linarith
    then show ?thesis using False
      by (auto simp add: M mb bit_and_iff bit_push_bit_iff bit_take_bit_iff)
  qed
qed

lemma read_unsigned:
  assumes fb: "field_bits T S E M" and us: "\<not> signed_of T"
  shows "read T S M fld = Some (take_bit (E - S) (drop_bit S fld))"
proof -
  have E: "S < E" "E \<le> bits_of T" using fb by (simp_all add: field_bits_def)
  have "S < bits_of (promote T)" using E bits_of_promote [of T] by simp
  then have "shr (promote T) (push_bit S (take_bit (E - S) (drop_bit S fld))) (int S) =
      Some (take_bit (E - S) (drop_bit S fld))"
    by (simp add: shr_def drop_bit_push_bit)
  moreover have "min (bits_of T) (E - S) = E - S" using E by linarith
  then have "static_cast T (take_bit (E - S) (drop_bit S fld)) = take_bit (E - S) (drop_bit S fld)"
    using us by (simp add: static_cast_def)
  ultimately show ?thesis using us by (simp add: read_def masked_field [OF fb])
qed

lemma sign_extend_bits:
  fixes Y :: int
  assumes "S < E" "E < 32"
  shows "signed_take_bit 31 (drop_bit (S + (32 - E))
           (signed_take_bit 31 (push_bit (32 - E) (push_bit S (take_bit (E - S) Y))))) =
         signed_take_bit (E - S - 1) Y"
proof (rule bit_eqI)
  fix j
  define m where "m = min 31 (S + (32 - E) + min 31 j)"
  have m: "32 - E + S \<le> m" "m - (32 - E + S) = min (E - S - 1) j" "min (E - S - 1) j < E - S"
    using assms unfolding m_def by arith+
  have "bit (signed_take_bit 31 (drop_bit (S + (32 - E))
           (signed_take_bit 31 (push_bit (32 - E) (push_bit S (take_bit (E - S) Y)))))) j =
        bit (push_bit (32 - E + S) (take_bit (E - S) Y)) m"
    by (simp add: bit_signed_take_bit_iff bit_drop_bit_eq push_bit_push_bit m_def)
  also have "\<dots> = bit Y (min (E - S - 1) j)"
    using m by (simp add: bit_push_bit_iff bit_take_bit_iff)
  finally show "bit (signed_take_bit 31 (drop_bit (S + (32 - E))
           (signed_take_bit 31 (push_bit (32 - E) (push_bit S (take_bit (E - S) Y)))))) j =
        bit (signed_take_bit (E - S - 1) Y) j"
    by (simp add: bit_signed_take_bit_iff)
qed

lemma no_sign_extend_bits:
  fixes Y :: int
  assumes "S < E" "E < U" "U < 32"
  shows "signed_take_bit (U - 1) (drop_bit (S + (U - E))
           (signed_take_bit 31 (push_bit (U - E) (push_bit S (take_bit (E - S) Y))))) =
         take_bit (E - S) Y"
proof (rule bit_eqI)
  fix j
  define m where "m = min 31 (S + (U - E) + min (U - 1) j)"
  have m: "U - E + S \<le> m" "m - (U - E + S) < E - S \<longleftrightarrow> j < E - S"
    "j < E - S \<Longrightarrow> m - (U - E + S) = j"
    using assms unfolding m_def by arith+
  have "bit (signed_take_bit (U - 1) (drop_bit (S + (U - E))
           (signed_take_bit 31 (push_bit (U - E) (push_bit S (take_bit (E - S) Y)))))) j =
        bit (push_bit (U - E + S) (take_bit (E - S) Y)) m"
    by (simp add: bit_signed_take_bit_iff bit_drop_bit_eq push_bit_push_bit m_def)
  also have "\<dots> = (j < E - S \<and> bit Y j)"
    using m by (auto simp add: bit_push_bit_iff bit_take_bit_iff)
  finally show "bit (signed_take_bit (U - 1) (drop_bit (S + (U - E))
           (signed_take_bit 31 (push_bit (U - E) (push_bit S (take_bit (E - S) Y)))))) j =
        bit (take_bit (E - S) Y) j"
    by (simp add: bit_take_bit_iff)
qed

lemma shl_int: "n < bits_of P \<Longrightarrow> shl P a (int n) = Some (static_cast P (push_bit n a))"
  by (simp add: shl_def)

lemma shr_int: "n < bits_of P \<Longrightarrow> shr P a (int n) = Some (drop_bit n a)"
  by (simp add: shr_def)

lemma read_signed32:
  assumes fb: "field_bits T S E M" and sg: "signed_of T" and U: "bits_of T = 32"
  shows "read T S M fld = Some (signed_take_bit (E - S - 1) (drop_bit S fld))"
proof -
  define Y where "Y = take_bit (E - S) (drop_bit S fld)"
  have E: "S < E" "E < 32" using fb sg U by (simp_all add: field_bits_def)
  have P: "promote T = T" using U by (simp add: promote_def)
  have cast: "static_cast T z = signed_take_bit 31 z" for z
    using sg U by (simp add: static_cast_def)
  have off: "MaskMsbOffset T M = Some (32 - E)"
    using MaskMsbOffset_eq [OF fb sg] U by simp
  have x: "static_cast T fld AND static_cast T M = push_bit S Y"
    unfolding Y_def by (rule masked_field [OF fb])
  have a: "shl T (push_bit S Y) (int (32 - E)) =
      Some (static_cast T (push_bit (32 - E) (push_bit S Y)))"
    using E U by (intro shl_int) simp
  have v: "shr T z (int (S + (32 - E))) = Some (drop_bit (S + (32 - E)) z)" for z
    using E U by (intro shr_int) simp
  have "read T S M fld =
      Some (static_cast T (drop_bit (S + (32 - E))
        (static_cast T (push_bit (32 - E) (push_bit S Y)))))"
    using sg by (simp add: read_def off P x a v del: of_nat_add)
  also have "\<dots> = Some (signed_take_bit (E - S - 1) (drop_bit S fld))"
    unfolding cast Y_def sign_extend_bits [OF E] ..
  finally show ?thesis .
qed

lemma read_signed_narrow:
  assumes fb: "field_bits T S E M" and sg: "signed_of T" and U: "bits_of T < 32"
  shows "read T S M fld = Some (take_bit (E - S) (drop_bit S fld))"
proof -
  define Y where "Y = take_bit (E - S) (drop_bit S fld)"
  have E: "S < E" "E < bits_of T" using fb sg by (simp_all add: field_bits_def)
  have P: "promote T = int_type" using U by (simp add: promote_def)
  have cast: "static_cast T z = signed_take_bit (bits_of T - 1) z" for z
    using sg by (simp add: static_cast_def)
  have icast: "static_cast int_type z = signed_take_bit 31 z" for z
    by (simp add: static_cast_def int_type_def)
  have off: "MaskMsbOffset T M = Some (bits_of T - E)"
    using MaskMsbOffset_eq [OF fb sg] U by simp
  have x: "static_cast T fld AND static_cast T M = push_bit S Y"
    unfolding Y_def by (rule masked_field [OF fb])
  have a: "shl int_type (push_bit S Y) (int (bits_of T - E)) =
      Some (static_cast int_type (push_bit (bits_of T - E) (push_bit S Y)))"
    using E U by (intro shl_int) (simp add: int_type_def)
  have v: "shr int_type z (int (S + (bits_of T - E))) = Some (drop_bit (S + (bits_of T - E)) z)" for z
    using E U by (intro shr_int) (simp add: int_type_def)
  have "read T S M fld =
      Some (static_cast T (drop_bit (S + (bits_of T - E))
        (static_cast int_type (push_bit (bits_of T - E) (push_bit S Y)))))"
    using sg by (simp add: read_def off P x a v del: of_nat_add)
  also have "\<dots> = Some (take_bit (E - S) (drop_bit S fld))"
    unfolding cast icast Y_def no_sign_extend_bits [OF E U] take_bit_take_bit by simp
  finally show ?thesis .
qed

lemma read_signed_wide:
  assumes "signed_of T" "32 < bits_of T"
  shows "read T S M fld = None"
  using assms by (simp add: read_def MaskMsbOffset_wide)

lemma is_value_merge_bits: "is_value T (merge_bits T M fld X)"
  by (simp add: merge_bits_def is_value_static_cast)

lemma merge_bits_cong:
  assumes "0 < bits_of T"
    and "\<And>i. i < bits_of T \<Longrightarrow> bit M i \<Longrightarrow> bit X i = bit Y i"
  shows "merge_bits T M fld X = merge_bits T M fld Y"
proof (rule is_value_eqI [OF is_value_merge_bits is_value_merge_bits assms(1)])
  fix i
  assume "i < bits_of T"
  then show "bit (merge_bits T M fld X) i = bit (merge_bits T M fld Y) i"
    using assms(2) by (simp add: bit_merge_bits_low)
qed


lemma and_assign_merge:
  assumes "0 < bits_of T"
  shows "and_assign T S M fld Rhs =
     shl (promote T) (static_cast T Rhs) (int S) \<bind>
       (\<lambda>x. Some (merge_bits T M fld (static_cast T fld AND x)))"
proof (cases "shl (promote T) (static_cast T Rhs) (int S)")
  case None
  then show ?thesis by (simp add: and_assign_def)
next
  case (Some x)
  have "static_cast T (static_cast T fld AND (x OR bit_compl (promote T) (static_cast T M))) =
        merge_bits T M fld (static_cast T fld AND x)"
  proof (rule is_value_eqI [OF is_value_static_cast is_value_merge_bits assms])
    fix i
    assume i: "i < bits_of T"
    then have "i < bits_of (promote T)" using bits_of_promote [of T] by simp
    then show "bit (static_cast T (static_cast T fld AND (x OR bit_compl (promote T) (static_cast T M)))) i =
          bit (merge_bits T M fld (static_cast T fld AND x)) i"
      using i by (auto simp add: bit_merge_bits_low bit_static_cast_low bit_and_iff bit_or_iff bit_compl_low)
  qed
  then show ?thesis using Some by (simp add: and_assign_def)
qed

lemma or_assign_merge:
  assumes "0 < bits_of T"
  shows "or_assign T S M fld Rhs =
     shl (promote T) (static_cast T Rhs) (int S) \<bind>
       (\<lambda>x. Some (merge_bits T M fld (static_cast T fld OR x)))"
proof (cases "shl (promote T) (static_cast T Rhs) (int S)")
  case None
  then show ?thesis by (simp add: or_assign_def)
next
  case (Some x)
  have "static_cast T (static_cast T fld OR (x AND static_cast T M)) =
        merge_bits T M fld (static_cast T fld OR x)"
  proof (rule is_value_eqI [OF is_value_static_cast is_value_merge_bits assms])
    fix i
    assume i: "i < bits_of T"
    then show "bit (static_cast T (static_cast T fld OR (x AND static_cast T M))) i =
          bit (merge_bits T M fld (static_cast T fld OR x)) i"
      by (auto simp add: bit_merge_bits_low bit_static_cast_low bit_and_iff bit_or_iff)
  qed
  then show ?thesis using Some by (simp add: or_assign_def)
qed

lemma apply_assignment_merge:
  assumes "0 < bits_of T" "apply_assignment T S M fld a = Some fld'"
  shows "\<exists>X. fld' = merge_bits T M fld X"
proof (cases a)
  case (Assign Rhs)
  then show ?thesis using assms(2) by (auto simp add: assign_def split: bind_splits)
next
  case (ArithAssign opr Rhs)
  then show ?thesis using assms(2) by (auto simp add: arith_assign_def split: bind_splits)
next
  case (AndAssign Rhs)
  then show ?thesis using assms by (auto simp add: and_assign_merge split: bind_splits)
next
  case (OrAssign Rhs)
  then show ?thesis using assms by (auto simp add: or_assign_merge split: bind_splits)
next
  case (XorAssign Rhs)
  then show ?thesis using assms(2) by (auto simp add: xor_assign_def split: bind_splits)
next
  case (ShlAssign Rhs)
  then show ?thesis using assms(2) by (auto simp add: shl_assign_def split: bind_splits)
next
  case (ShrAssign Rhs)
  then show ?thesis using assms(2) by (auto simp add: shr_assign_def split: bind_splits if_splits)
next
  case Increment
  then show ?thesis using assms(2) by (auto simp add: arith_assign_def split: bind_splits)
next
  case Decrement
  then show ?thesis using assms(2) by (auto simp add: arith_assign_def split: bind_splits)
qed

lemma apply_assignment_frame:
  assumes "0 < bits_of T" "apply_assignment T S M fld a = Some fld'"
  shows "is_value T fld'"
    and "\<And>i. i < bits_of T \<Longrightarrow> \<not> bit M i \<Longrightarrow> bit fld' i = bit fld i"
proof -
  from apply_assignment_merge [OF assms] obtain X where X: "fld' = merge_bits T M fld X" ..
  show "is_value T fld'" by (simp add: X is_value_merge_bits)
  show "bit fld' i = bit fld i" if "i < bits_of T" "\<not> bit M i" for i
    using that by (simp add: X bit_merge_bits_low)
qed

lemma Mask_value:
  assumes "Mask T Widths = Some Ms" "I < length Widths"
  shows "is_value T (Ms ! I)"
  using Mask_nth(2) [OF assms] by (auto simp add: Mask_at_def intro: Mask_loop_value is_value_0)

lemma Mask_at_bits:
  assumes M: "Mask_at T Widths I = Some M" and I: "I < length Widths"
    and U: "0 < bits_of T" and i: "i < bits_of T"
  defines "S \<equiv> FieldBegin (bits_of T) Widths ! I mod bits_of T"
    and "J \<equiv> min (Widths ! I) (bits_of T)"
  shows "(J = 0 \<or> S + J \<le> 32) \<and>
         (bit M i \<longleftrightarrow> (S \<le> i \<and> i < S + J) \<or> (0 < J \<and> S + J = 32 \<and> 31 \<le> i))"
  using Mask_loop_bits [OF M [unfolded Mask_at_def] i] by (simp add: S_def J_def)

lemma Mask_low_disjoint_less:
  assumes Ms: "Mask T Widths = Some Ms" and IJ: "I < J" "J < length Widths"
    and U: "0 < bits_of T"
    and same: "FieldBegin (bits_of T) Widths ! I div bits_of T =
               FieldBegin (bits_of T) Widths ! J div bits_of T"
    and i: "i < bits_of T"
    and fits: "fits_size_t (bits_of T) Widths"
  shows "\<not> (bit (Ms ! I) i \<and> bit (Ms ! J) i)"
proof
  assume both: "bit (Ms ! I) i \<and> bit (Ms ! J) i"
  define SI SJ JI JJ where "SI = FieldBegin (bits_of T) Widths ! I mod bits_of T"
    and "SJ = FieldBegin (bits_of T) Widths ! J mod bits_of T"
    and "JI = min (Widths ! I) (bits_of T)" and "JJ = min (Widths ! J) (bits_of T)"
  have I: "I < length Widths" using IJ by simp
  have sh: "SI + Widths ! I \<le> SJ"
    using same_unit_shift [OF U fits IJ same] by (simp add: SI_def SJ_def)
  have bI: "(JI = 0 \<or> SI + JI \<le> 32) \<and>
      (bit (Ms ! I) i \<longleftrightarrow> (SI \<le> i \<and> i < SI + JI) \<or> (0 < JI \<and> SI + JI = 32 \<and> 31 \<le> i))"
    using Mask_at_bits [OF Mask_nth(2) [OF Ms I] I U i] by (simp add: SI_def JI_def)
  have bJ: "(JJ = 0 \<or> SJ + JJ \<le> 32) \<and>
      (bit (Ms ! J) i \<longleftrightarrow> (SJ \<le> i \<and> i < SJ + JJ) \<or> (0 < JJ \<and> SJ + JJ = 32 \<and> 31 \<le> i))"
    using Mask_at_bits [OF Mask_nth(2) [OF Ms IJ(2)] IJ(2) U i] by (simp add: SJ_def JJ_def)
  have "JI \<le> Widths ! I" by (simp add: JI_def)
  with sh have le: "SI + JI \<le> SJ" by simp
  from both bJ have "0 < JJ" by auto
  with bJ have SJ: "SJ < 32" by auto
  with le have "SI + JI < 32" by simp
  with both bI have "i < SI + JI" by auto
  with le have "i < SJ" by simp
  with both bJ SJ show False by auto
qed

lemma Mask_low_disjoint:
  assumes "Mask T Widths = Some Ms" "I < length Widths" "J < length Widths" "I \<noteq> J"
    and "0 < bits_of T"
    and "FieldBegin (bits_of T) Widths ! I div bits_of T =
         FieldBegin (bits_of T) Widths ! J div bits_of T"
    and "i < bits_of T"
    and "fits_size_t (bits_of T) Widths"
  shows "\<not> (bit (Ms ! I) i \<and> bit (Ms ! J) i)"
proof (cases "I < J")
  case True
  from Mask_low_disjoint_less [OF assms(1) True assms(3,5,6,7,8)] show ?thesis .
next
  case False
  then have "J < I" using assms(4) by simp
  from Mask_low_disjoint_less [OF assms(1) this assms(2,5) assms(6) [symmetric] assms(7,8)]
  show ?thesis by blast
qed

lemma frame_and:
  assumes a: "is_value T a" and b: "is_value T b" and N: "is_value T N" and U: "0 < bits_of T"
    and eq: "\<And>i. i < bits_of T \<Longrightarrow> bit N i \<Longrightarrow> bit a i = bit b i"
  shows "a AND N = b AND N"
proof (rule bit_eqI)
  fix i
  show "bit (a AND N) i = bit (b AND N) i"
  proof (cases "i < bits_of T")
    case True
    then show ?thesis using eq [of i] by (auto simp add: bit_and_iff)
  next
    case False
    show ?thesis
    proof (cases "signed_of T")
      case True
      have m: "min (bits_of T - 1) i = bits_of T - 1" using False by linarith
      have "bit a i = bit a (bits_of T - 1)" "bit b i = bit b (bits_of T - 1)"
        "bit N i = bit N (bits_of T - 1)"
        using is_value_bit [OF a, of i] is_value_bit [OF b, of i] is_value_bit [OF N, of i] True m
        by simp_all
      then show ?thesis using eq [of "bits_of T - 1"] U by (auto simp add: bit_and_iff)
    next
      case F: False
      then have "\<not> bit N i" using is_value_bit [OF N, of i] False by simp
      then show ?thesis by (simp add: bit_and_iff)
    qed
  qed
qed

lemma read_cong:
  assumes "static_cast T f AND static_cast T M = static_cast T g AND static_cast T M"
  shows "read T S M f = read T S M g"
  using assms by (simp add: read_def)

lemma Mask_disjoint:
  assumes Ms: "Mask T Widths = Some Ms" and I: "I < length Widths" and J: "J < length Widths"
    and ne: "I \<noteq> J" and U: "0 < bits_of T"
    and same: "FieldBegin (bits_of T) Widths ! I div bits_of T =
               FieldBegin (bits_of T) Widths ! J div bits_of T"
    and fits: "fits_size_t (bits_of T) Widths"
  shows "Ms ! I AND Ms ! J = 0"
proof -
  have low: "\<not> (bit (Ms ! I) i \<and> bit (Ms ! J) i)" if "i < bits_of T" for i
    using Mask_low_disjoint [OF Ms I J ne U same that fits] .
  have vI: "is_value T (Ms ! I)" and vJ: "is_value T (Ms ! J)"
    using Mask_value [OF Ms I] Mask_value [OF Ms J] .
  have "\<not> (bit (Ms ! I) i \<and> bit (Ms ! J) i)" for i
  proof (cases "i < bits_of T")
    case True
    then show ?thesis by (rule low)
  next
    case False
    show ?thesis
    proof (cases "signed_of T")
      case True
      have m: "min (bits_of T - 1) i = bits_of T - 1" using False by linarith
      have "bit (Ms ! I) i = bit (Ms ! I) (bits_of T - 1)" "bit (Ms ! J) i = bit (Ms ! J) (bits_of T - 1)"
        using is_value_bit [OF vI, of i] is_value_bit [OF vJ, of i] True m by simp_all
      then show ?thesis using low [of "bits_of T - 1"] U by simp
    next
      case F: False
      then have "\<not> bit (Ms ! I) i" using is_value_bit [OF vI, of i] False by simp
      then show ?thesis by simp
    qed
  qed
  then show ?thesis unfolding and_eq_0_iff_bits by blast
qed

lemma get_at_unit_in_range:
  assumes "get_at T Fields I = Inr p" and fits: "fits_size_t (bits_of T) (map Width Fields)"
  shows "0 < bits_of T" "0 < Width (Fields ! I)"
    "unit_of p < dataSize (bits_of T) (map Width Fields)"
proof -
  note d = get_at_InrD [OF assms(1)]
  from get_at_shape [OF assms] obtain E where fb: "field_bits T (Shift_of p) E (Mask_of p)"
    and W: "0 < Width (Fields ! I)" by blast
  have SE: "Shift_of p < E" "E \<le> bits_of T" using fb by (simp_all add: field_bits_def)
  then show U: "0 < bits_of T" by simp
  show "0 < Width (Fields ! I)" by (rule W)
  have "FieldBegin (bits_of T) (map Width Fields) ! I div bits_of T
      < dataSize (bits_of T) (map Width Fields)"
    using d(1) W fits by (intro unit_in_range [OF U]) simp_all
  then show "unit_of p < dataSize (bits_of T) (map Width Fields)" by (simp add: d(3))
qed

lemma proxy_assign_InrD:
  assumes "proxy_assign T p a D = Inr D'"
  shows "\<not> const_of p"
    and "\<exists>fld'. apply_assignment T (Shift_of p) (Mask_of p) (D ! unit_of p) a = Some fld' \<and>
           D' = D[unit_of p := fld']"
  using assms by (auto simp add: proxy_assign_def split: if_splits option.splits)

lemma proxy_assign_frame:
  assumes acc: "get_at T Fields I = Inr p"
    and Ms: "Mask T (map Width Fields) = Some Ms"
    and J: "J < length Fields" "J \<noteq> I"
    and D: "length D = dataSize (bits_of T) (map Width Fields)" "\<forall>x\<in>set D. is_value T x"
    and upd: "proxy_assign T p a D = Inr D'"
    and fits: "fits_size_t (bits_of T) (map Width Fields)"
  defines "u \<equiv> FieldBegin (bits_of T) (map Width Fields) ! J div bits_of T"
  shows "D' ! u AND Ms ! J = D ! u AND Ms ! J"
proof (cases "u = unit_of p")
  case False
  from proxy_assign_InrD(2) [OF upd] obtain fld' where "D' = D[unit_of p := fld']" by blast
  then show ?thesis using False by simp
next
  case True
  note d = get_at_InrD [OF acc]
  note r = get_at_unit_in_range [OF acc fits]
  from d(2) Ms have m: "Mask_of p = Ms ! I" by auto
  from proxy_assign_InrD(2) [OF upd] obtain fld' where
    ap: "apply_assignment T (Shift_of p) (Mask_of p) (D ! unit_of p) a = Some fld'"
    and D': "D' = D[unit_of p := fld']" by blast
  have len: "unit_of p < length D" using r(3) D(1) by simp
  then have old: "is_value T (D ! unit_of p)" using D(2) by simp
  have new: "is_value T fld'" using apply_assignment_frame(1) [OF r(1) ap] .
  have same: "FieldBegin (bits_of T) (map Width Fields) ! I div bits_of T =
      FieldBegin (bits_of T) (map Width Fields) ! J div bits_of T"
    using True d(3) by (simp add: u_def)
  have I': "I < length (map Width Fields)" and J': "J < length (map Width Fields)"
    using d(1) J by simp_all
  have "fld' AND Ms ! J = D ! unit_of p AND Ms ! J"
  proof (rule frame_and [OF new old Mask_value [OF Ms J'] r(1)])
    fix i
    assume i: "i < bits_of T" and b: "bit (Ms ! J) i"
    have "\<not> bit (Ms ! I) i"
      using Mask_low_disjoint [OF Ms I' J' J(2) [symmetric] r(1) same i fits] b by blast
    then show "bit fld' i = bit (D ! unit_of p) i"
      using apply_assignment_frame(2) [OF r(1) ap i] by (simp add: m)
  qed
  then show ?thesis using True len by (simp add: D')
qed

lemma take_bit_drop_bit_cong:
  fixes a b :: int
  assumes "\<And>j. j < n \<Longrightarrow> bit a (S + j) = bit b j"
  shows "take_bit n (drop_bit S a) = take_bit n b"
  by (rule bit_eqI) (auto simp add: bit_take_bit_iff bit_drop_bit_eq assms)

lemma signed_take_bit_drop_bit_cong:
  fixes a b :: int
  assumes "\<And>j. j \<le> n \<Longrightarrow> bit a (S + j) = bit b j"
  shows "signed_take_bit n (drop_bit S a) = signed_take_bit n b"
  by (rule bit_eqI) (simp add: bit_signed_take_bit_iff bit_drop_bit_eq assms)

lemma assign_eq:
  assumes "S < bits_of T"
  shows "assign T S M fld V =
     Some (merge_bits T M fld (static_cast (promote T) (push_bit S (static_cast T V))))"
proof -
  have "S < bits_of (promote T)" using assms bits_of_promote [of T] by simp
  then show ?thesis by (simp add: assign_def shl_int)
qed

lemma bit_assign:
  assumes fb: "field_bits T S E M" and a: "assign T S M fld V = Some fld'" and i: "i < bits_of T"
  shows "bit fld' i \<longleftrightarrow> (if S \<le> i \<and> i < E then bit V (i - S) else bit fld i)"
proof -
  have E: "S < E" "E \<le> bits_of T" using fb by (simp_all add: field_bits_def)
  then have S: "S < bits_of T" by simp
  have iP: "i < bits_of (promote T)" using i bits_of_promote [of T] by simp
  have "i - S < bits_of T" using i by simp
  then have "bit (static_cast T V) (i - S) = bit V (i - S)" by (rule bit_static_cast_low)
  then show ?thesis
    using a i iP unfolding assign_eq [OF S]
    by (auto simp add: bit_merge_bits_low bit_field_bits [OF fb] bit_static_cast_low bit_push_bit_iff)
qed

lemma read_eq:
  assumes fb: "field_bits T S E M" and ok: "signed_of T \<longrightarrow> bits_of T \<le> 32"
  shows "read T S M fld =
     Some (if signed_of T \<and> bits_of T = 32 then signed_take_bit (E - S - 1) (drop_bit S fld)
           else take_bit (E - S) (drop_bit S fld))"
proof (cases "signed_of T")
  case False
  then show ?thesis using read_unsigned [OF fb] by simp
next
  case True
  show ?thesis
  proof (cases "bits_of T = 32")
    case U: True
    then show ?thesis using read_signed32 [OF fb True] True by simp
  next
    case False
    then have "bits_of T < 32" using ok True by simp
    then show ?thesis using read_signed_narrow [OF fb True] True by simp
  qed
qed

lemma assign_read:
  assumes fb: "field_bits T S E M" and ok: "signed_of T \<longrightarrow> bits_of T \<le> 32"
    and a: "assign T S M fld V = Some fld'"
  shows "read T S M fld' =
     Some (if signed_of T \<and> bits_of T = 32 then signed_take_bit (E - S - 1) V
           else take_bit (E - S) V)"
proof -
  have E: "S < E" "E \<le> bits_of T" using fb by (simp_all add: field_bits_def)
  have b: "bit fld' (S + j) = bit V j" if "j < E - S" for j
  proof -
    have "S + j < bits_of T" "S \<le> S + j \<and> S + j < E" using that E by simp_all
    then show ?thesis using bit_assign [OF fb a, of "S + j"] by simp
  qed
  have 1: "take_bit (E - S) (drop_bit S fld') = take_bit (E - S) V"
    by (rule take_bit_drop_bit_cong) (rule b)
  have 2: "signed_take_bit (E - S - 1) (drop_bit S fld') = signed_take_bit (E - S - 1) V"
  proof (rule signed_take_bit_drop_bit_cong)
    fix j
    assume "j \<le> E - S - 1"
    then have "j < E - S" using E by simp
    then show "bit fld' (S + j) = bit V j" by (rule b)
  qed
  show ?thesis unfolding read_eq [OF fb ok] 1 2 ..
qed

lemma low_bits_representable:
  assumes "representable T W V" "0 < W" "W \<le> n"
  shows "(if signed_of T then signed_take_bit (W - 1) V else take_bit n V) = V"
proof (cases "signed_of T")
  case True
  then have "- (2 ^ (W - 1)) \<le> V" "V < 2 ^ (W - 1)" using assms by (simp_all add: representable_def)
  then show ?thesis using True by (simp add: signed_take_bit_int_eq_self)
next
  case False
  then have V: "0 \<le> V" "V < 2 ^ W" using assms by (simp_all add: representable_def)
  have "(2::int) ^ W \<le> 2 ^ n" using assms(3) by simp
  with V have "V < 2 ^ n" by linarith
  then show ?thesis using False V by (simp add: take_bit_int_eq_self)
qed

lemma value_outside_mask:
  assumes fb: "field_bits T S E M" and a: "is_value T a" and b: "is_value T b"
    and eq: "\<And>i. i < bits_of T \<Longrightarrow> \<not> (S \<le> i \<and> i < E) \<Longrightarrow> bit a i = bit b i"
  shows "a AND NOT M = b AND NOT M"
proof (rule bit_eqI)
  fix i
  have E: "S < E" "E \<le> bits_of T" "signed_of T \<Longrightarrow> E < bits_of T"
    using fb by (simp_all add: field_bits_def)
  have mb: "bit M i \<longleftrightarrow> S \<le> i \<and> i < E" using bit_field_bits [OF fb] .
  show "bit (a AND NOT M) i = bit (b AND NOT M) i"
  proof (cases "i < bits_of T")
    case True
    then show ?thesis using eq [of i] by (auto simp add: bit_and_iff bit_not_iff mb)
  next
    case False
    show ?thesis
    proof (cases "signed_of T")
      case True
      have m: "min (bits_of T - 1) i = bits_of T - 1" using False by linarith
      have "bit a i = bit a (bits_of T - 1)" "bit b i = bit b (bits_of T - 1)"
        using is_value_bit [OF a, of i] is_value_bit [OF b, of i] True m by simp_all
      moreover have "\<not> (S \<le> bits_of T - 1 \<and> bits_of T - 1 < E)" "bits_of T - 1 < bits_of T"
        using E(3) [OF True] E(1) by linarith+
      ultimately show ?thesis using eq [of "bits_of T - 1"] by (simp add: bit_and_iff)
    next
      case F: False
      then have "\<not> bit a i" "\<not> bit b i"
        using is_value_bit [OF a, of i] is_value_bit [OF b, of i] False by simp_all
      then show ?thesis by (simp add: bit_and_iff)
    qed
  qed
qed

lemma proxy_assign_Assign:
  assumes acc: "get_at T Fields I = Inr p" and nf: "\<not> Fixed (Fields ! I)"
    and D: "length D = dataSize (bits_of T) (map Width Fields)"
    and fits: "fits_size_t (bits_of T) (map Width Fields)"
  obtains fld' where "assign T (Shift_of p) (Mask_of p) (D ! unit_of p) V = Some fld'"
    and "proxy_assign T p (Assign V) D = Inr (D[unit_of p := fld'])"
    and "unit_of p < length D"
proof -
  note d = get_at_InrD [OF acc]
  note r = get_at_unit_in_range [OF acc fits]
  have "Shift_of p < bits_of T" using r(1) by (simp add: d(4))
  from assign_eq [OF this] obtain fld' where
    a: "assign T (Shift_of p) (Mask_of p) (D ! unit_of p) V = Some fld'" by blast
  have "proxy_assign T p (Assign V) D = Inr (D[unit_of p := fld'])"
    using a nf by (simp add: proxy_assign_def d(5))
  moreover have "unit_of p < length D" using r(3) D by simp
  ultimately show ?thesis using a that by blast
qed

section \<open>Facts about reading and about the construction of the storage\<close>












section \<open>The compound operators as read, operate, assign\<close>

text \<open>
  Each compound operator stores what reading the field, applying the operator to the
  value read and assigning the result stores, whenever the read is defined. The value
  read is the one of \<open>read_eq\<close>: sign-extended only over the 32-bit signed type.
\<close>

lemma fixed_field_read_only:
  assumes "get_at T Fields I = Inr p" "Fixed (Fields ! I)"
  shows "proxy_assign T p a D = Inl read_only_member"
  using get_at_InrD(5) [OF assms(1)] assms(2) by (simp add: proxy_assign_def)

lemma zero_width_field_rejected:
  assumes "I < length Fields" "Width (Fields ! I) = 0"
  shows "get_at T Fields I = Inl size_zero_member \<or> get_at T Fields I = Inl ill_formed_constant"
proof (cases "Mask T (map Width Fields)")
  case None
  then show ?thesis using assms(1) by (simp add: get_at_def)
next
  case (Some Ms)
  have "Mask_at T (map Width Fields) I = Some 0"
    using assms by (simp add: Mask_at_zero_width)
  then have "Ms ! I = 0" using Mask_nth(2) [OF Some, of I] assms(1) by simp
  then show ?thesis using assms(1) Some by (simp add: get_at_def)
qed

lemma arith_assign_read_assign:
  assumes U: "0 < bits_of T"
  shows "arith_assign T opr S M fld R =
     do {
       v \<leftarrow> read T S M fld;
       r \<leftarrow> arith_op (promote T) opr v R;
       assign T S M fld r
     }"
proof (cases "read T S M fld")
  case None
  then show ?thesis by (simp add: arith_assign_def)
next
  case v: (Some v)
  show ?thesis
  proof (cases "arith_op (promote T) opr v R")
    case None
    then show ?thesis by (simp add: arith_assign_def v)
  next
    case r: (Some r)
    show ?thesis
    proof (cases "S < bits_of (promote T)")
      case False
      then show ?thesis by (simp add: arith_assign_def assign_def v r shl_def)
    next
      case True
      have "merge_bits T M fld (static_cast (promote T) (push_bit S r)) =
            merge_bits T M fld (static_cast (promote T) (push_bit S (static_cast T r)))"
      proof (rule merge_bits_cong [OF U])
        fix i
        assume i: "i < bits_of T"
        then have "i < bits_of (promote T)" "i - S < bits_of T"
          using bits_of_promote [of T] by simp_all
        then show "bit (static_cast (promote T) (push_bit S r)) i =
                   bit (static_cast (promote T) (push_bit S (static_cast T r))) i"
          by (simp add: bit_static_cast_low bit_push_bit_iff)
      qed
      then show ?thesis using True by (simp add: arith_assign_def assign_def v r shl_int)
    qed
  qed
qed

lemma read_bits:
  assumes fb: "field_bits T S E M" and ok: "signed_of T \<longrightarrow> bits_of T \<le> 32"
  obtains v where "read T S M fld = Some v" and "\<And>j. j < E - S \<Longrightarrow> bit v j = bit fld (S + j)"
    and "\<And>j. E - S \<le> j \<Longrightarrow> bit v j = (signed_of T \<and> bits_of T = 32 \<and> bit fld (E - 1))"
proof -
  have E: "S < E" using fb by (simp add: field_bits_def)
  define v where "v = (if signed_of T \<and> bits_of T = 32 then signed_take_bit (E - S - 1) (drop_bit S fld)
           else take_bit (E - S) (drop_bit S fld))"
  have 1: "read T S M fld = Some v" unfolding v_def by (rule read_eq [OF fb ok])
  have 2: "bit v j = bit fld (S + j)" if "j < E - S" for j
  proof -
    have "min (E - S - 1) j = j" using that by linarith
    then show ?thesis using that
      by (simp add: v_def bit_signed_take_bit_iff bit_take_bit_iff bit_drop_bit_eq)
  qed
  have 3: "bit v j = (signed_of T \<and> bits_of T = 32 \<and> bit fld (E - 1))" if "E - S \<le> j" for j
  proof -
    have "min (E - S - 1) j = E - S - 1" using that by linarith
    moreover have "S + (E - S - 1) = E - 1" using E by linarith
    ultimately show ?thesis using that
      by (auto simp add: v_def bit_signed_take_bit_iff bit_take_bit_iff bit_drop_bit_eq)
  qed
  from 1 2 3 show ?thesis by (rule that)
qed

lemma bitwise_assign_read_assign:
  assumes fb: "field_bits T S E M" and ok: "signed_of T \<longrightarrow> bits_of T \<le> 32"
  shows "and_assign T S M fld R = do { v \<leftarrow> read T S M fld; assign T S M fld (v AND R) }"
    and "or_assign T S M fld R = do { v \<leftarrow> read T S M fld; assign T S M fld (v OR R) }"
    and "xor_assign T S M fld R = do { v \<leftarrow> read T S M fld; assign T S M fld (v XOR R) }"
proof -
  have E: "S < E" "E \<le> bits_of T" using fb by (simp_all add: field_bits_def)
  then have S: "S < bits_of T" and U: "0 < bits_of T" by simp_all
  have SP: "S < bits_of (promote T)" using S bits_of_promote [of T] by simp
  obtain v where v: "read T S M fld = Some v"
    and vb: "\<And>j. j < E - S \<Longrightarrow> bit v j = bit fld (S + j)"
    and vh: "\<And>j. E - S \<le> j \<Longrightarrow> bit v j = (signed_of T \<and> bits_of T = 32 \<and> bit fld (E - 1))"
  proof (rule read_bits [OF fb ok, of fld])
    fix v
    assume "read T S M fld = Some v"
      and "\<And>j. j < E - S \<Longrightarrow> bit v j = bit fld (S + j)"
      and "\<And>j. E - S \<le> j \<Longrightarrow> bit v j = (signed_of T \<and> bits_of T = 32 \<and> bit fld (E - 1))"
    then show thesis by (rule that)
  qed
  have x: "shl (promote T) (static_cast T R) (int S) =
           Some (static_cast (promote T) (push_bit S (static_cast T R)))"
    using SP by (rule shl_int)
  have low: "bit (static_cast (promote T) (push_bit S (static_cast T y))) i = bit y (i - S)"
    if "i < bits_of T" "S \<le> i" for y i
  proof -
    have "i < bits_of (promote T)" "i - S < bits_of T"
      using that bits_of_promote [of T] by simp_all
    then show ?thesis using that by (simp add: bit_static_cast_low bit_push_bit_iff)
  qed
  have fld: "bit (static_cast T fld) i = bit v (i - S)" if "i < bits_of T" "bit M i" for i
  proof -
    have "S \<le> i" "i < E" using that(2) bit_field_bits [OF fb] by simp_all
    then have "i - S < E - S" "S + (i - S) = i" by simp_all
    then show ?thesis using vb [of "i - S"] that(1) by (simp add: bit_static_cast_low)
  qed
  have inM: "S \<le> i" if "bit M i" for i using that bit_field_bits [OF fb] by simp
  have "merge_bits T M fld (static_cast T fld AND static_cast (promote T) (push_bit S (static_cast T R))) =
        merge_bits T M fld (static_cast (promote T) (push_bit S (static_cast T (v AND R))))"
    by (rule merge_bits_cong [OF U]) (simp add: low fld inM bit_and_iff)
  then show "and_assign T S M fld R = do { v \<leftarrow> read T S M fld; assign T S M fld (v AND R) }"
    by (simp add: and_assign_merge [OF U] x v assign_eq [OF S])
  have "merge_bits T M fld (static_cast T fld OR static_cast (promote T) (push_bit S (static_cast T R))) =
        merge_bits T M fld (static_cast (promote T) (push_bit S (static_cast T (v OR R))))"
    by (rule merge_bits_cong [OF U]) (simp add: low fld inM bit_or_iff)
  then show "or_assign T S M fld R = do { v \<leftarrow> read T S M fld; assign T S M fld (v OR R) }"
    by (simp add: or_assign_merge [OF U] x v assign_eq [OF S])
  have "merge_bits T M fld (static_cast T fld XOR static_cast (promote T) (push_bit S (static_cast T R))) =
        merge_bits T M fld (static_cast (promote T) (push_bit S (static_cast T (v XOR R))))"
    by (rule merge_bits_cong [OF U]) (simp add: low fld inM bit_xor_iff)
  then show "xor_assign T S M fld R = do { v \<leftarrow> read T S M fld; assign T S M fld (v XOR R) }"
    by (simp add: xor_assign_def x v assign_eq [OF S])
qed

lemma shift_assign_read_assign:
  assumes fb: "field_bits T S E M" and ok: "signed_of T \<longrightarrow> bits_of T \<le> 32"
  shows "shl_assign T S M fld R =
           do { v \<leftarrow> read T S M fld; r \<leftarrow> shl (promote T) v R; assign T S M fld r }"
    and "shr_assign T S M fld R =
           do { v \<leftarrow> read T S M fld; r \<leftarrow> shr (promote T) v R; assign T S M fld r }"
proof -
  have E: "S < E" "E \<le> bits_of T" "signed_of T \<Longrightarrow> E < bits_of T"
    using fb by (simp_all add: field_bits_def)
  then have S: "S < bits_of T" and U: "0 < bits_of T" by simp_all
  have SP: "S < bits_of (promote T)" using S bits_of_promote [of T] by simp
  obtain v where v: "read T S M fld = Some v"
    and vb: "\<And>j. j < E - S \<Longrightarrow> bit v j = bit fld (S + j)"
    and vh: "\<And>j. E - S \<le> j \<Longrightarrow> bit v j = (signed_of T \<and> bits_of T = 32 \<and> bit fld (E - 1))"
  proof (rule read_bits [OF fb ok, of fld])
    fix v
    assume "read T S M fld = Some v"
      and "\<And>j. j < E - S \<Longrightarrow> bit v j = bit fld (S + j)"
      and "\<And>j. E - S \<le> j \<Longrightarrow> bit v j = (signed_of T \<and> bits_of T = 32 \<and> bit fld (E - 1))"
    then show thesis by (rule that)
  qed
  have low: "bit (static_cast (promote T) (push_bit S (static_cast T y))) i = bit y (i - S)"
    if "i < bits_of T" "S \<le> i" for y i
  proof -
    have "i < bits_of (promote T)" "i - S < bits_of T"
      using that bits_of_promote [of T] by simp_all
    then show ?thesis using that by (simp add: bit_static_cast_low bit_push_bit_iff)
  qed
  have inM: "S \<le> i \<and> i < E" if "bit M i" for i using that bit_field_bits [OF fb] by simp
  have masked: "bit (static_cast T fld AND static_cast T M) k \<longleftrightarrow> S \<le> k \<and> k < E \<and> bit fld k" for k
    by (auto simp add: masked_field [OF fb] bit_push_bit_iff bit_take_bit_iff bit_drop_bit_eq)
  show "shl_assign T S M fld R =
           do { v \<leftarrow> read T S M fld; r \<leftarrow> shl (promote T) v R; assign T S M fld r }"
  proof (cases "0 \<le> R \<and> R < int (bits_of (promote T))")
    case False
    then have "shl (promote T) a R = None" for a by (auto simp add: shl_def)
    then show ?thesis by (simp add: shl_assign_def v)
  next
    case True
    define n where "n = nat R"
    have x: "shl (promote T) a R = Some (static_cast (promote T) (push_bit n a))" for a
      using True by (simp add: shl_def n_def)
    have "merge_bits T M fld (static_cast (promote T) (push_bit n (static_cast T fld AND static_cast T M))) =
          merge_bits T M fld (static_cast (promote T) (push_bit S (static_cast T (static_cast (promote T) (push_bit n v)))))"
    proof (rule merge_bits_cong [OF U])
      fix i
      assume i: "i < bits_of T" and m: "bit M i"
      have Si: "S \<le> i" "i < E" using inM [OF m] by simp_all
      have iP: "i < bits_of (promote T)" "i - S < bits_of (promote T)"
        using i bits_of_promote [of T] by simp_all
      have l: "bit (static_cast (promote T) (push_bit n (static_cast T fld AND static_cast T M))) i \<longleftrightarrow>
               n \<le> i \<and> S \<le> i - n \<and> bit fld (i - n)"
      proof -
        have "bit (static_cast (promote T) (push_bit n X)) i \<longleftrightarrow> n \<le> i \<and> bit X (i - n)" for X
          using iP by (simp add: bit_static_cast_low bit_push_bit_iff)
        from this [of "static_cast T fld AND static_cast T M"]
        have "bit (static_cast (promote T) (push_bit n (static_cast T fld AND static_cast T M))) i \<longleftrightarrow>
              n \<le> i \<and> (S \<le> i - n \<and> i - n < E \<and> bit fld (i - n))"
          unfolding masked .
        moreover have "i - n < E" using Si by simp
        ultimately show ?thesis by blast
      qed
      have r: "bit (static_cast (promote T) (push_bit n v)) (i - S) \<longleftrightarrow> n \<le> i - S \<and> bit v (i - S - n)"
        using iP by (simp add: bit_static_cast_low bit_push_bit_iff)
      have "bit v (i - S - n) = bit fld (i - n)" if "n \<le> i - S"
      proof -
        have "i - S - n < E - S" "S + (i - S - n) = i - n" using that Si by simp_all
        then show ?thesis using vb [of "i - S - n"] by simp
      qed
      then show "bit (static_cast (promote T) (push_bit n (static_cast T fld AND static_cast T M))) i =
                 bit (static_cast (promote T) (push_bit S (static_cast T (static_cast (promote T) (push_bit n v))))) i"
        unfolding low [OF i Si(1)] l r using Si by auto
    qed
    then show ?thesis by (simp add: shl_assign_def v x assign_eq [OF S])
  qed
  show "shr_assign T S M fld R =
           do { v \<leftarrow> read T S M fld; r \<leftarrow> shr (promote T) v R; assign T S M fld r }"
  proof (cases "0 \<le> R \<and> R < int (bits_of (promote T))")
    case False
    then have "shr (promote T) a R = None" for a by (auto simp add: shr_def)
    then show ?thesis using SP by (simp add: shr_assign_def v shl_int)
  next
    case True
    define n where "n = nat R"
    have x: "shr (promote T) a R = Some (drop_bit n a)" for a
      using True by (simp add: shr_def n_def)
    show ?thesis
    proof (cases "signed_of T")
      case False
      have "merge_bits T M fld (drop_bit n (static_cast T fld AND static_cast T M)) =
            merge_bits T M fld (static_cast (promote T) (push_bit S (static_cast T (drop_bit n v))))"
      proof (rule merge_bits_cong [OF U])
        fix i
        assume i: "i < bits_of T" and m: "bit M i"
        have Si: "S \<le> i" "i < E" using inM [OF m] by simp_all
        have "bit v (n + (i - S)) \<longleftrightarrow> n + i < E \<and> bit fld (n + i)"
        proof (cases "n + (i - S) < E - S")
          case True
          then have "S + (n + (i - S)) = n + i" "n + i < E" using Si by simp_all
          then show ?thesis using vb [OF True] by simp
        next
          case c: False
          then have "\<not> n + i < E" using Si by simp
          then show ?thesis using vh [of "n + (i - S)"] c False by simp
        qed
        moreover have "bit (drop_bit n X) k \<longleftrightarrow> bit X (n + k)" for X :: int and k
          by (simp add: bit_drop_bit_eq)
        from this [of "static_cast T fld AND static_cast T M" i] this [of v "i - S"]
        have "bit (drop_bit n (static_cast T fld AND static_cast T M)) i \<longleftrightarrow>
                S \<le> n + i \<and> n + i < E \<and> bit fld (n + i)"
          and "bit (drop_bit n v) (i - S) \<longleftrightarrow> bit v (n + (i - S))"
          unfolding masked by blast+
        ultimately show "bit (drop_bit n (static_cast T fld AND static_cast T M)) i =
              bit (static_cast (promote T) (push_bit S (static_cast T (drop_bit n v)))) i"
          unfolding low [OF i Si(1)] using Si by auto
      qed
      then show ?thesis using False by (simp add: shr_assign_def v x assign_eq [OF S])
    next
      case sg: True
      have P: "bits_of (promote T) = 32" "signed_of (promote T)"
        using sg ok by (simp_all add: promote_def int_type_def)
      have E31: "E \<le> 31" using E(3) [OF sg] ok sg by simp
      have a: "shl (promote T) v (int S) = Some (static_cast (promote T) (push_bit S v))"
        using SP by (rule shl_int)
      have "merge_bits T M fld (drop_bit n (static_cast (promote T) (push_bit S v))) =
            merge_bits T M fld (static_cast (promote T) (push_bit S (static_cast T (drop_bit n v))))"
      proof (rule merge_bits_cong [OF U])
        fix i
        assume i: "i < bits_of T" and m: "bit M i"
        have Si: "S \<le> i" "i < E" using inM [OF m] by simp_all
        have l: "bit (drop_bit n (static_cast (promote T) (push_bit S v))) i \<longleftrightarrow>
                 bit v (min 31 (n + i) - S)"
          using P Si E31 by (simp add: bit_drop_bit_eq bit_static_cast bit_push_bit_iff)
        have "bit v (min 31 (n + i) - S) = bit v (n + (i - S))"
        proof (cases "n + i \<le> 31")
          case True
          then have "min 31 (n + i) - S = n + (i - S)" using Si by simp
          then show ?thesis by simp
        next
          case False
          then have "E - S \<le> min 31 (n + i) - S" "E - S \<le> n + (i - S)" using E31 Si by simp_all
          then show ?thesis using vh by simp
        qed
        then show "bit (drop_bit n (static_cast (promote T) (push_bit S v))) i =
              bit (static_cast (promote T) (push_bit S (static_cast T (drop_bit n v)))) i"
          unfolding low [OF i Si(1)] l by (simp add: bit_drop_bit_eq)
      qed
      then show ?thesis using sg by (simp add: shr_assign_def v a x assign_eq [OF S])
    qed
  qed
qed

text \<open>
  Which fields \<^verbatim>\<open>get\<close> yields an accessor for, over a base type of at most 32 bits: all
  fields of non-zero width except, over a signed type, those that contain the most
  significant bit of their unit.
\<close>

lemma those_map_Some:
  "(\<forall>x\<in>set xs. \<exists>y. f x = Some y) \<Longrightarrow> \<exists>ys. those (map f xs) = Some ys"
  by (induction xs) auto

lemma Mask_Some:
  assumes U: "0 < bits_of T" "bits_of T \<le> 32" and fits: "fits_size_t (bits_of T) Widths"
  shows "\<exists>Ms. Mask T Widths = Some Ms"
  unfolding Mask_def
proof (rule those_map_Some, rule ballI)
  fix K
  assume "K \<in> set [0..<length Widths]"
  then have K: "K < length Widths" by simp
  have "FieldBegin (bits_of T) Widths ! K mod bits_of T + min (Widths ! K) (bits_of T) \<le> bits_of T"
    using U(1) fits K by (rule shift_fits)
  then have "min (Widths ! K) (bits_of T) = 0 \<or>
      FieldBegin (bits_of T) Widths ! K mod bits_of T + min (Widths ! K) (bits_of T) \<le> 32"
    using U(2) by linarith
  from Mask_loop_Some [OF this] show "\<exists>y. Mask_at T Widths K = Some y"
    by (simp add: Mask_at_def)
qed

lemma Mask_sign:
  assumes Ms: "Mask T Widths = Some Ms" and I: "I < length Widths" and W: "0 < Widths ! I"
    and U: "0 < bits_of T" "bits_of T \<le> 32"
    and fits: "fits_size_t (bits_of T) Widths"
  defines "S \<equiv> FieldBegin (bits_of T) Widths ! I mod bits_of T"
    and "J \<equiv> min (Widths ! I) (bits_of T)"
  shows "Ms ! I \<noteq> 0"
    and "Ms ! I < 0 \<longleftrightarrow> signed_of T \<and> S + J = bits_of T"
proof -
  note M = Mask_nth(2) [OF Ms I]
  have v: "is_value T (Ms ! I)" by (rule Mask_value [OF Ms I])
  have fit: "S + J \<le> bits_of T"
    unfolding S_def J_def using U(1) fits I by (rule shift_fits)
  have J: "0 < J" using W U(1) by (simp add: J_def)
  have b: "bit (Ms ! I) i \<longleftrightarrow> (S \<le> i \<and> i < S + J) \<or> (S + J = 32 \<and> 31 \<le> i)"
    if "i < bits_of T" for i
    using Mask_at_bits [OF M I U(1) that] J unfolding S_def J_def by simp
  have "S < bits_of T" using fit J by simp
  from b [OF this] have "bit (Ms ! I) S" using J by simp
  then show "Ms ! I \<noteq> 0" by auto
  show "Ms ! I < 0 \<longleftrightarrow> signed_of T \<and> S + J = bits_of T"
  proof (cases "signed_of T")
    case False
    then show ?thesis using is_value_nonneg [OF v] by simp
  next
    case True
    have "bit (Ms ! I) (bits_of T - 1) \<longleftrightarrow> S + J = bits_of T"
      using b [of "bits_of T - 1"] U fit J by auto
    then show ?thesis using is_value_negative [OF v True] True by simp
  qed
qed

lemma get_at_accessible_iff:
  assumes U: "0 < bits_of T" "bits_of T \<le> 32"
    and I: "I < length Fields" and W: "0 < Width (Fields ! I)"
    and fits: "fits_size_t (bits_of T) (map Width Fields)"
  defines "S \<equiv> FieldBegin (bits_of T) (map Width Fields) ! I mod bits_of T"
    and "J \<equiv> min (Width (Fields ! I)) (bits_of T)"
  shows "signed_of T \<and> S + J = bits_of T \<Longrightarrow> get_at T Fields I = Inl size_zero_member"
    and "\<not> (signed_of T \<and> S + J = bits_of T) \<Longrightarrow>
           \<exists>p. get_at T Fields I = Inr p \<and> const_of p = Fixed (Fields ! I)"
proof -
  from Mask_Some [OF U fits] obtain Ms where Ms: "Mask T (map Width Fields) = Some Ms" ..
  have I': "I < length (map Width Fields)" and W': "0 < map Width Fields ! I"
    using I W by simp_all
  note s = Mask_sign [OF Ms I' W' U fits]
  show "get_at T Fields I = Inl size_zero_member" if "signed_of T \<and> S + J = bits_of T"
    using that s(2) I unfolding S_def J_def by (simp add: get_at_def Ms)
  show "\<exists>p. get_at T Fields I = Inr p \<and> const_of p = Fixed (Fields ! I)"
    if "\<not> (signed_of T \<and> S + J = bits_of T)"
  proof -
    have "\<not> Ms ! I < 0" using that s(2) I unfolding S_def J_def by simp
    then have "0 < Ms ! I" using s(1) by linarith
    then show ?thesis using I by (simp add: get_at_def Ms)
  qed
qed

section \<open>Facts about the constructed storage\<close>








section \<open>The base type \<^verbatim>\<open>bool\<close>\<close>

text \<open>
  Over \<^verbatim>\<open>bool\<close> the mask of every field of non-zero width is \<^verbatim>\<open>true\<close>. A field at shift 0
  holds the whole unit; a field at another shift reads \<^verbatim>\<open>false\<close> whatever the unit holds,
  and an assignment to it clears the unit. This is why the statements about reading
  and assignment are made for the integer types other than \<^verbatim>\<open>bool\<close>.
\<close>

lemma bool_Mask_loop_true:
  "bool_Mask_loop 0 0 4 = Some 1" "bool_Mask_loop 0 4 4 = Some 1"
  by code_simp+

lemma bool_field_at_shift:
  "bool_assign 0 1 0 1 = Some 1" "bool_read 0 1 1 = Some 1"
  "bool_read 4 1 1 = Some 0" "bool_assign 4 1 1 1 = Some 0"
  by code_simp+

section \<open>Layouts outside the bound, and a list that ends at a unit boundary\<close>

text \<open>
  Behind a 5-bit field, a field of width \<^verbatim>\<open>SIZE_MAX - 1\<close> over \<^verbatim>\<open>std::uint8_t\<close> is laid out at
  bit 5 of unit 0: \<^verbatim>\<open>BeginBit + W - 1\<close> wraps to 2, in the same unit, so the field is not
  moved. Its mask is \<^verbatim>\<open>0xE0\<close>, three bits, and it reads 7 after 255 is assigned.
\<close>

lemma tail_wrapped_layout:
  "FieldBegin 8 [5, 18446744073709551614] = [0, 5, 3]"
  "dataSize 8 [5, 18446744073709551614] = 1"
  "min (18446744073709551614::nat) 8 = 8"
  "SIZE_MAX - 1 = 18446744073709551614"
  by (simp_all add: layout_eval)

lemma tail_wrapped_mask: "Mask_loop uint8 0 0 5 = Some 31" "Mask_loop uint8 0 5 8 = Some 224"
  by code_simp+

lemma tail_wrapped_eval:
  "get_at uint8 tail_wrapped 1 = Inr \<lparr>unit_of = 0, Shift_of = 5, Mask_of = 224, const_of = False\<rparr>"
  "proxy_assign uint8 \<lparr>unit_of = 0, Shift_of = 5, Mask_of = 224, const_of = False\<rparr> (Assign 255) [0] = Inr [224]"
  "proxy_read uint8 \<lparr>unit_of = 0, Shift_of = 5, Mask_of = 224, const_of = False\<rparr> [224] = Some 7"
proof -
  have b: "bits_of uint8 = 8" by code_simp
  have m: "Mask uint8 (map Width tail_wrapped) = Some [31, 224]"
    by (simp add: Mask_def Mask_at_def tail_wrapped_def b tail_wrapped_layout tail_wrapped_mask upt_rec)
  show "get_at uint8 tail_wrapped 1 = Inr \<lparr>unit_of = 0, Shift_of = 5, Mask_of = 224, const_of = False\<rparr>"
    by (simp add: get_at_def m) (simp add: tail_wrapped_def b tail_wrapped_layout)
  show "proxy_assign uint8 \<lparr>unit_of = 0, Shift_of = 5, Mask_of = 224, const_of = False\<rparr> (Assign 255) [0] = Inr [224]"
    by code_simp
  show "proxy_read uint8 \<lparr>unit_of = 0, Shift_of = 5, Mask_of = 224, const_of = False\<rparr> [224] = Some 7"
    by code_simp
qed

text \<open>
  A zero-width descriptor that ends the list at a unit boundary has its
  \<^verbatim>\<open>FieldBegin\<close> in a unit that \<^verbatim>\<open>dataSize()\<close> does not count, and the loop of \<^verbatim>\<open>Data\<close>
  indexes that unit: the storage cannot be constructed, although \<^verbatim>\<open>get\<close> yields an
  accessor for the field in front of the descriptor.
\<close>

lemma trailing_marker_eval:
  "FieldBegin 8 (map Width trailing_marker) = [0, 8, 8]"
  "dataSize 8 (map Width trailing_marker) = 1"
  "Data uint8 trailing_marker = None"
  "get_at uint8 trailing_marker 0 = Inr \<lparr>unit_of = 0, Shift_of = 0, Mask_of = 255, const_of = False\<rparr>"
  by code_simp+

section \<open>The claims about the layout\<close>

text \<open>
  The layout is computed in \<^verbatim>\<open>std::size_t\<close>. The claims about it hold for the lists of
  widths that satisfy \<open>fits_size_t\<close>: the sum of the widths plus one unit for every field
  and one more is at most \<open>2 ^ 64\<close>. Beyond that bound the cursor wraps, and each of the
  claims has a list of widths for which it fails.
\<close>

text \<open>
  C4, as amended. In a list of widths that satisfies \<open>fits_size_t\<close>, a zero-width
  (padding) descriptor advances the layout cursor to the next multiple of the unit
  width: the cursor behind it is \<open>next_unit\<close> of the cursor in front of it, a multiple of
  the unit width that is at least the old cursor and less than one unit beyond it, and
  the old cursor itself when that was a multiple already. The descriptor reserves no
  bits (its mask is 0), and the entry that follows it in \<^verbatim>\<open>FieldBegin\<close>, the next field or
  the final cursor, begins at that unit boundary, whatever its width.
\<close>

theorem padding_marker:
  assumes "0 < bits_of T" "I < length Widths" "Widths ! I = 0"
    and "fits_size_t (bits_of T) Widths"
  shows "cursor (bits_of T) (take (Suc I) Widths) =
           next_unit (bits_of T) (cursor (bits_of T) (take I Widths)) \<and>
         bits_of T dvd cursor (bits_of T) (take (Suc I) Widths) \<and>
         cursor (bits_of T) (take I Widths) \<le> cursor (bits_of T) (take (Suc I) Widths) \<and>
         cursor (bits_of T) (take (Suc I) Widths) < cursor (bits_of T) (take I Widths) + bits_of T \<and>
         (bits_of T dvd cursor (bits_of T) (take I Widths) \<longrightarrow>
            cursor (bits_of T) (take (Suc I) Widths) = cursor (bits_of T) (take I Widths)) \<and>
         Mask_at T Widths I = Some 0 \<and>
         FieldBegin (bits_of T) Widths ! Suc I = cursor (bits_of T) (take (Suc I) Widths)"
  unfolding cursor_take_ideal [OF assms(1,4)] next_unit_cursor_ideal [OF assms(1,4)]
    FieldBegin_ideal [OF assms(1,4)]
  using assms(1-3) by (rule ideal_padding_marker)

theorem padding_marker_witness:
  "0 < bits_of \<lparr>bits_of = 8, signed_of = False\<rparr> \<and> 2 < length [3, 1, 0, 1::nat] \<and>
   [3, 1, 0, 1::nat] ! 2 = 0 \<and> fits_size_t 8 [3, 1, 0, 1] \<and>
   cursor 8 (take 2 [3, 1, 0, 1]) = 4 \<and> cursor 8 (take 3 [3, 1, 0, 1]) = 8 \<and>
   FieldBegin 8 [3, 1, 0, 1] ! 3 = 8 \<and>
   Mask_at \<lparr>bits_of = 8, signed_of = False\<rparr> [3, 1, 0, 1] 2 = Some 0 \<and>
   1 < length [8, 0, 1::nat] \<and> [8, 0, 1::nat] ! 1 = 0 \<and> fits_size_t 8 [8, 0, 1] \<and>
   cursor 8 (take 1 [8, 0, 1]) = 8 \<and> (8::nat) dvd 8 \<and> cursor 8 (take (Suc 1) [8, 0, 1]) = 8 \<and>
   FieldBegin 8 [8, 0, 1] ! Suc 1 = 8"
proof -
  have h: "0 < bits_of \<lparr>bits_of = 8, signed_of = False\<rparr>" "2 < length [3, 1, 0, 1::nat]"
    "[3, 1, 0, 1::nat] ! 2 = 0" by simp_all
  have f: "fits_size_t (bits_of \<lparr>bits_of = 8, signed_of = False\<rparr>) [3, 1, 0, 1]"
    "fits_size_t (bits_of \<lparr>bits_of = 8, signed_of = False\<rparr>) [8, 0, 1]"
    by (simp_all add: fits_size_t_def)
  have c: "cursor 8 (take 2 [3, 1, 0, 1]) = 4" by (simp add: layout_eval)
  have n: "next_unit 8 4 = 8" "next_unit 8 8 = 8" by (simp_all add: layout_eval)
  have h': "1 < length [8, 0, 1::nat]" "[8, 0, 1::nat] ! 1 = 0" by simp_all
  have c': "cursor 8 (take 1 [8, 0, 1]) = 8" by (simp add: layout_eval)
  have 1: "cursor 8 (take 3 [3, 1, 0, 1]) = 8 \<and> FieldBegin 8 [3, 1, 0, 1] ! 3 = 8 \<and>
      Mask_at \<lparr>bits_of = 8, signed_of = False\<rparr> [3, 1, 0, 1] 2 = Some 0"
    using padding_marker [OF h f(1)] c n by simp
  have 2: "cursor 8 (take (Suc 1) [8, 0, 1]) = 8 \<and> FieldBegin 8 [8, 0, 1] ! Suc 1 = 8"
    using padding_marker [OF h(1) h' f(2)] c' n by simp
  from 1 2 h c h' c' f show ?thesis by simp
qed

text \<open>
  The claim C4 as stated fails where the cursor wraps. Behind a field of width
  \<^verbatim>\<open>SIZE_MAX\<close> the cursor over an 8-bit unit is \<open>2 ^ 64 - 1\<close>; the zero-width descriptor
  that follows computes \<^verbatim>\<open>(BeginBit + 7) / 8 * 8\<close> with a sum that wraps to 6, and the
  cursor behind it is 0, below the cursor in front of it.
\<close>

theorem padding_wrap_counterexample:
  "[SIZE_MAX, 0] ! 1 = 0 \<and>
   cursor 8 (take 1 [SIZE_MAX, 0]) = SIZE_MAX \<and>
   cursor 8 (take (Suc 1) [SIZE_MAX, 0]) = 0 \<and>
   FieldBegin 8 [SIZE_MAX, 0] = [0, SIZE_MAX, 0] \<and>
   \<not> cursor 8 (take 1 [SIZE_MAX, 0]) \<le> cursor 8 (take (Suc 1) [SIZE_MAX, 0])"
  by (simp add: layout_eval)

text \<open>
  C6, as amended. For every list of widths that satisfies \<open>fits_size_t\<close> the entries of
  \<^verbatim>\<open>FieldBegin\<close> are non-decreasing in descriptor order, the bit ranges
  \<open>[begin, begin + width)\<close> of two fields of non-zero width do not overlap, and every
  field whose width is non-zero and at most the unit width lies within one storage
  unit. A field wider than the unit, which the class accepts unless
  \<^verbatim>\<open>ORDERED_BIT_FIELD_DISALLOW_OVERSIZED_FIELD\<close> is set, does not: see
  \<open>oversized_field_counterexample\<close>.
\<close>

theorem layout_invariant:
  assumes "0 < U" "fits_size_t U Widths"
  shows "(\<forall>I J. I \<le> J \<and> J \<le> length Widths \<longrightarrow>
            FieldBegin U Widths ! I \<le> FieldBegin U Widths ! J) \<and>
         (\<forall>I J. I < length Widths \<and> J < length Widths \<and> I \<noteq> J \<and>
                0 < Widths ! I \<and> 0 < Widths ! J \<longrightarrow>
            FieldBegin U Widths ! I + Widths ! I \<le> FieldBegin U Widths ! J \<or>
            FieldBegin U Widths ! J + Widths ! J \<le> FieldBegin U Widths ! I) \<and>
         (\<forall>I. I < length Widths \<and> 0 < Widths ! I \<and> Widths ! I \<le> U \<longrightarrow>
            FieldBegin U Widths ! I div U = (FieldBegin U Widths ! I + Widths ! I - 1) div U)"
  unfolding FieldBegin_ideal [OF assms] using assms(1) by (rule ideal_layout_invariant)

theorem layout_invariant_witness:
  "0 < (8::nat) \<and> fits_size_t 8 [3, 1, 5] \<and> FieldBegin 8 [3, 1, 5] = [0, 3, 8, 13] \<and>
   FieldBegin 8 [3, 1, 5] ! 1 \<le> FieldBegin 8 [3, 1, 5] ! 2 \<and>
   (FieldBegin 8 [3, 1, 5] ! 1 + [3, 1, 5] ! 1 \<le> FieldBegin 8 [3, 1, 5] ! 2 \<or>
    FieldBegin 8 [3, 1, 5] ! 2 + [3, 1, 5] ! 2 \<le> FieldBegin 8 [3, 1, 5] ! 1) \<and>
   FieldBegin 8 [3, 1, 5] ! 2 div 8 = (FieldBegin 8 [3, 1, 5] ! 2 + [3, 1, 5] ! 2 - 1) div 8"
proof -
  have h: "0 < (8::nat)" by simp
  have f: "fits_size_t 8 [3, 1, 5]" by (simp add: fits_size_t_def)
  note t = layout_invariant [OF h f]
  have a: "FieldBegin 8 [3, 1, 5] ! 1 \<le> FieldBegin 8 [3, 1, 5] ! 2"
    using t [THEN conjunct1, rule_format, of 1 2] by simp
  have b: "FieldBegin 8 [3, 1, 5] ! 1 + [3, 1, 5] ! 1 \<le> FieldBegin 8 [3, 1, 5] ! 2 \<or>
    FieldBegin 8 [3, 1, 5] ! 2 + [3, 1, 5] ! 2 \<le> FieldBegin 8 [3, 1, 5] ! 1"
    using t [THEN conjunct2, THEN conjunct1, rule_format, of 1 2] by simp
  have c: "FieldBegin 8 [3, 1, 5] ! 2 div 8 = (FieldBegin 8 [3, 1, 5] ! 2 + [3, 1, 5] ! 2 - 1) div 8"
    using t [THEN conjunct2, THEN conjunct2, rule_format, of 2] by simp
  have d: "FieldBegin 8 [3, 1, 5] = [0, 3, 8, 13]" by (simp add: layout_eval)
  from a b c d h f show ?thesis by blast
qed

text \<open>
  The claim C6 as stated fails for a 12-bit field behind a 3-bit field over an 8-bit
  unit: the field begins at bit 8, in unit 1, and its last bit, bit 19, is in unit 2.
\<close>

theorem oversized_field_counterexample:
  "0 < [3, 12::nat] ! 1 \<and>
   FieldBegin 8 [3, 12] ! 1 div 8 \<noteq> (FieldBegin 8 [3, 12] ! 1 + [3, 12] ! 1 - 1) div 8"
  by (simp add: layout_eval)

text \<open>
  C3, as amended. In a list of widths that satisfies \<open>fits_size_t\<close>, a field of non-zero
  width that would straddle a unit boundary at the cursor in front of it (the cursor's
  unit differs from the unit of the field's last bit) begins at \<open>next_unit\<close> of that
  cursor, the multiple of the unit width that lies at or above the cursor and less than
  one unit beyond it; a field that does not straddle begins at the cursor; either way
  the cursor then advances by the width. The number of storage units is the final
  cursor divided by the unit width, rounded up. For 3-bit, 1-bit and 5-bit fields over
  an 8-bit unit that is 2 units, and assigning 2, 0 and 10 to the three fields of the
  freshly constructed storage yields the units \<open>[2, 10]\<close>, that is
  \<^verbatim>\<open>[0b0000'0'010, 0b000'01010]\<close>.
\<close>

theorem alignment_and_size:
  assumes U: "0 < U" and I: "I < length Widths" and W: "0 < Widths ! I"
    and fits: "fits_size_t U Widths"
  shows "(cursor U (take I Widths) div U \<noteq> (cursor U (take I Widths) + Widths ! I - 1) div U \<longrightarrow>
            FieldBegin U Widths ! I = next_unit U (cursor U (take I Widths)) \<and>
            U dvd FieldBegin U Widths ! I \<and>
            cursor U (take I Widths) \<le> FieldBegin U Widths ! I \<and>
            FieldBegin U Widths ! I < cursor U (take I Widths) + U) \<and>
         (cursor U (take I Widths) div U = (cursor U (take I Widths) + Widths ! I - 1) div U \<longrightarrow>
            FieldBegin U Widths ! I = cursor U (take I Widths)) \<and>
         cursor U (take (Suc I) Widths) = FieldBegin U Widths ! I + Widths ! I \<and>
         cursor U Widths \<le> dataSize U Widths * U \<and>
         dataSize U Widths * U < cursor U Widths + U \<and>
         dataSize 8 (map Width abc) = 2 \<and>
         (\<exists>pA pB pC D1 D2.
            get_at uint8 abc 0 = Inr pA \<and> get_at uint8 abc 1 = Inr pB \<and>
            get_at uint8 abc 2 = Inr pC \<and> Data uint8 abc = Some [0, 0] \<and>
            proxy_assign uint8 pA (Assign 2) [0, 0] = Inr D1 \<and>
            proxy_assign uint8 pB (Assign 0) D1 = Inr D2 \<and>
            proxy_assign uint8 pC (Assign 10) D2 = Inr [2, 10])"
proof -
  have ex1: "dataSize 8 (map Width abc) = 2" by code_simp
  have ex2: "\<exists>pA pB pC D1 D2.
            get_at uint8 abc 0 = Inr pA \<and> get_at uint8 abc 1 = Inr pB \<and>
            get_at uint8 abc 2 = Inr pC \<and> Data uint8 abc = Some [0, 0] \<and>
            proxy_assign uint8 pA (Assign 2) [0, 0] = Inr D1 \<and>
            proxy_assign uint8 pB (Assign 0) D1 = Inr D2 \<and>
            proxy_assign uint8 pC (Assign 10) D2 = Inr [2, 10]"
  proof (intro exI conjI)
    show "get_at uint8 abc 0 = Inr \<lparr>unit_of = 0, Shift_of = 0, Mask_of = 7, const_of = False\<rparr>"
      by code_simp
    show "get_at uint8 abc 1 = Inr \<lparr>unit_of = 0, Shift_of = 3, Mask_of = 8, const_of = False\<rparr>"
      by code_simp
    show "get_at uint8 abc 2 = Inr \<lparr>unit_of = 1, Shift_of = 0, Mask_of = 31, const_of = False\<rparr>"
      by code_simp
    show "Data uint8 abc = Some [0, 0]" by code_simp
    show "proxy_assign uint8 \<lparr>unit_of = 0, Shift_of = 0, Mask_of = 7, const_of = False\<rparr>
            (Assign 2) [0, 0] = Inr [2, 0]" by code_simp
    show "proxy_assign uint8 \<lparr>unit_of = 0, Shift_of = 3, Mask_of = 8, const_of = False\<rparr>
            (Assign 0) [2, 0] = Inr [2, 0]" by code_simp
    show "proxy_assign uint8 \<lparr>unit_of = 1, Shift_of = 0, Mask_of = 31, const_of = False\<rparr>
            (Assign 10) [2, 0] = Inr [2, 10]" by code_simp
  qed
  show ?thesis
    unfolding cursor_take_ideal [OF U fits] next_unit_cursor_ideal [OF U fits]
      FieldBegin_ideal [OF U fits] cursor_ideal [OF U fits] dataSize_ideal [OF U fits]
    using ideal_alignment_and_size [OF U I W] ex1 ex2 by blast
qed

theorem alignment_and_size_witness:
  "0 < (8::nat) \<and> (2::nat) < length [3, 1, 5::nat] \<and> 0 < [3, 1, 5::nat] ! 2 \<and>
   fits_size_t 8 [3, 1, 5] \<and>
   cursor 8 (take 2 [3, 1, 5]) = 4 \<and> (4::nat) div 8 \<noteq> (4 + 5 - 1) div 8 \<and>
   FieldBegin 8 [3, 1, 5] ! 2 = 8 \<and> cursor 8 [3, 1, 5] = 13 \<and> dataSize 8 [3, 1, 5] = 2 \<and>
   (1::nat) < length [3, 1, 5::nat] \<and> 0 < [3, 1, 5::nat] ! 1 \<and>
   cursor 8 (take 1 [3, 1, 5]) = 3 \<and> (3::nat) div 8 = (3 + 1 - 1) div 8 \<and>
   FieldBegin 8 [3, 1, 5] ! 1 = 3"
proof -
  have h: "0 < (8::nat)" "(2::nat) < length [3, 1, 5::nat]" "0 < [3, 1, 5::nat] ! 2" by simp_all
  have f: "fits_size_t 8 [3, 1, 5]" by (simp add: fits_size_t_def)
  have c: "cursor 8 (take 2 [3, 1, 5]) = 4" by code_simp
  have n: "next_unit 8 4 = 8" by code_simp
  have s: "(4::nat) div 8 \<noteq> (4 + 5 - 1) div 8" by simp
  have cu: "cursor 8 [3, 1, 5] = 13" and d: "dataSize 8 [3, 1, 5] = 2" by code_simp+
  note t = alignment_and_size [OF h f]
  have "FieldBegin 8 [3, 1, 5] ! 2 = next_unit 8 (cursor 8 (take 2 [3, 1, 5]))"
    using t [THEN conjunct1] c s by simp
  then have 1: "FieldBegin 8 [3, 1, 5] ! 2 = 8" by (simp only: c n)
  have h': "(1::nat) < length [3, 1, 5::nat]" "0 < [3, 1, 5::nat] ! 1" by simp_all
  have c': "cursor 8 (take 1 [3, 1, 5]) = 3" by code_simp
  have s': "(3::nat) div 8 = (3 + 1 - 1) div 8" by simp
  have "FieldBegin 8 [3, 1, 5] ! 1 = cursor 8 (take 1 [3, 1, 5])"
    using alignment_and_size [OF h(1) h' f, THEN conjunct2, THEN conjunct1] c' s' by simp
  then have 2: "FieldBegin 8 [3, 1, 5] ! 1 = 3" by (simp only: c')
  from 1 2 h f c s cu d h' c' s' show ?thesis by blast
qed

text \<open>
  The claim C3 as stated fails where the cursor wraps. Over an 8-bit unit a 3-bit field
  behind a field of width \<^verbatim>\<open>SIZE_MAX\<close> straddles a unit boundary at the cursor
  \<open>2 ^ 64 - 1\<close>; it begins at bit 0, below the cursor, not at the next unit boundary.
  And for the single field of width \<^verbatim>\<open>SIZE_MAX\<close> the final cursor is \<open>2 ^ 64 - 1\<close> and
  \<^verbatim>\<open>dataSize()\<close> is 0, not the cursor divided by 8 and rounded up.
\<close>

theorem alignment_wrap_counterexample:
  "0 < [SIZE_MAX, 3] ! 1 \<and>
   cursor 8 (take 1 [SIZE_MAX, 3]) = SIZE_MAX \<and>
   SIZE_MAX div 8 \<noteq> (SIZE_MAX + 3 - 1) div 8 \<and>
   FieldBegin 8 [SIZE_MAX, 3] ! 1 = 0 \<and>
   \<not> cursor 8 (take 1 [SIZE_MAX, 3]) \<le> FieldBegin 8 [SIZE_MAX, 3] ! 1 \<and>
   cursor 8 [SIZE_MAX] = SIZE_MAX \<and>
   dataSize 8 [SIZE_MAX] = 0 \<and>
   \<not> cursor 8 [SIZE_MAX] \<le> dataSize 8 [SIZE_MAX] * 8"
  by (simp add: layout_eval)

section \<open>The claim about the other fields\<close>

text \<open>
  C2, as amended. In a layout over an integer base type other than \<^verbatim>\<open>bool\<close> whose list
  of widths satisfies \<open>fits_size_t\<close> and whose masks can be computed, two distinct fields
  have disjoint bit ranges, and when they share a storage unit their masks have no bit
  in common. An
  assignment operator of any kind (\<^verbatim>\<open>=\<close>, the arithmetic and bitwise compound operators,
  the shifts, \<^verbatim>\<open>++\<close>, \<^verbatim>\<open>--\<close>) applied through the accessor of one field leaves the bits of
  every other field as they were, in the same unit or in another one, and a read through
  the accessor of the other field returns what it returned before.
\<close>

theorem other_fields_unchanged:
  assumes U: "0 < bits_of T"
    and Ms: "Mask T (map Width Fields) = Some Ms"
    and I: "I < length Fields" and J: "J < length Fields" and ne: "I \<noteq> J"
    and fits: "fits_size_t (bits_of T) (map Width Fields)"
  shows "(FieldBegin (bits_of T) (map Width Fields) ! I + Width (Fields ! I)
            \<le> FieldBegin (bits_of T) (map Width Fields) ! J \<or>
          FieldBegin (bits_of T) (map Width Fields) ! J + Width (Fields ! J)
            \<le> FieldBegin (bits_of T) (map Width Fields) ! I) \<and>
         (FieldBegin (bits_of T) (map Width Fields) ! I div bits_of T =
          FieldBegin (bits_of T) (map Width Fields) ! J div bits_of T \<longrightarrow>
            Ms ! I AND Ms ! J = 0) \<and>
         (\<forall>p a D D'.
            get_at T Fields I = Inr p \<and>
            length D = dataSize (bits_of T) (map Width Fields) \<and>
            (\<forall>x\<in>set D. is_value T x) \<and>
            proxy_assign T p a D = Inr D' \<longrightarrow>
              D' ! (FieldBegin (bits_of T) (map Width Fields) ! J div bits_of T) AND Ms ! J =
              D ! (FieldBegin (bits_of T) (map Width Fields) ! J div bits_of T) AND Ms ! J \<and>
              (\<forall>q. get_at T Fields J = Inr q \<longrightarrow> proxy_read T q D' = proxy_read T q D))"
proof (intro conjI allI impI)
  consider "I < J" | "J < I" using ne by linarith
  then show "FieldBegin (bits_of T) (map Width Fields) ! I + Width (Fields ! I)
            \<le> FieldBegin (bits_of T) (map Width Fields) ! J \<or>
          FieldBegin (bits_of T) (map Width Fields) ! J + Width (Fields ! J)
            \<le> FieldBegin (bits_of T) (map Width Fields) ! I"
  proof cases
    case 1
    then show ?thesis using FieldBegin_end [OF U fits, of I J] I J by simp
  next
    case 2
    then show ?thesis using FieldBegin_end [OF U fits, of J I] I J by simp
  qed
next
  assume "FieldBegin (bits_of T) (map Width Fields) ! I div bits_of T =
          FieldBegin (bits_of T) (map Width Fields) ! J div bits_of T"
  then show "Ms ! I AND Ms ! J = 0"
    using Ms I J ne U fits by (intro Mask_disjoint) simp_all
next
  fix p a D D'
  assume h: "get_at T Fields I = Inr p \<and>
            length D = dataSize (bits_of T) (map Width Fields) \<and>
            (\<forall>x\<in>set D. is_value T x) \<and>
            proxy_assign T p a D = Inr D'"
  show "D' ! (FieldBegin (bits_of T) (map Width Fields) ! J div bits_of T) AND Ms ! J =
        D ! (FieldBegin (bits_of T) (map Width Fields) ! J div bits_of T) AND Ms ! J"
    using h Ms J ne fits by (intro proxy_assign_frame [where I = I and p = p and a = a]) simp_all
next
  fix p a D D' q
  assume h: "get_at T Fields I = Inr p \<and>
            length D = dataSize (bits_of T) (map Width Fields) \<and>
            (\<forall>x\<in>set D. is_value T x) \<and>
            proxy_assign T p a D = Inr D'"
    and q: "get_at T Fields J = Inr q"
  define u where "u = FieldBegin (bits_of T) (map Width Fields) ! J div bits_of T"
  have fr: "D' ! u AND Ms ! J = D ! u AND Ms ! J"
    unfolding u_def using h Ms J ne fits
    by (intro proxy_assign_frame [where I = I and p = p and a = a]) simp_all
  note dq = get_at_InrD [OF q]
  from dq(2) Ms have mq: "Mask_of q = Ms ! J" by auto
  have uq: "unit_of q = u" by (simp add: dq(3) u_def)
  have len: "u < length D" using get_at_unit_in_range(3) [OF q fits] h by (simp add: uq)
  then have old: "is_value T (D ! u)" using h by simp
  from proxy_assign_InrD(2) [of T p a D D'] h obtain fld' where
    ap: "apply_assignment T (Shift_of p) (Mask_of p) (D ! unit_of p) a = Some fld'"
    and D': "D' = D[unit_of p := fld']" by blast
  have new: "is_value T (D' ! u)"
  proof (cases "u = unit_of p")
    case True
    then show ?thesis using apply_assignment_frame(1) [OF U ap] len by (simp add: D')
  next
    case False
    then show ?thesis using old by (simp add: D')
  qed
  have vm: "is_value T (Ms ! J)" using Mask_value [OF Ms] J by simp
  have "static_cast T (D' ! u) AND static_cast T (Ms ! J) =
        static_cast T (D ! u) AND static_cast T (Ms ! J)"
    using fr old new vm by (simp add: is_value_def)
  then show "proxy_read T q D' = proxy_read T q D"
    unfolding proxy_read_def uq mq by (rule read_cong)
qed

theorem other_fields_unchanged_witness:
  "0 < bits_of uint8 \<and> Mask uint8 (map Width abc) = Some [7, 8, 31] \<and>
   (0::nat) < length abc \<and> (1::nat) < length abc \<and> (0::nat) \<noteq> 1 \<and>
   fits_size_t (bits_of uint8) (map Width abc) \<and>
   get_at uint8 abc 0 = Inr \<lparr>unit_of = 0, Shift_of = 0, Mask_of = 7, const_of = False\<rparr> \<and>
   get_at uint8 abc 1 = Inr \<lparr>unit_of = 0, Shift_of = 3, Mask_of = 8, const_of = False\<rparr> \<and>
   length [8, 10::int] = dataSize (bits_of uint8) (map Width abc) \<and>
   is_value uint8 8 \<and> is_value uint8 10 \<and>
   proxy_assign uint8 \<lparr>unit_of = 0, Shift_of = 0, Mask_of = 7, const_of = False\<rparr> (Assign 5) [8, 10]
     = Inr [13, 10] \<and>
   FieldBegin (bits_of uint8) (map Width abc) ! 0 + Width (abc ! 0)
     \<le> FieldBegin (bits_of uint8) (map Width abc) ! 1 \<and>
   (7::int) AND 8 = 0 \<and>
   (13::int) AND 8 = 8 AND 8 \<and>
   proxy_read uint8 \<lparr>unit_of = 0, Shift_of = 3, Mask_of = 8, const_of = False\<rparr> [13, 10] =
   proxy_read uint8 \<lparr>unit_of = 0, Shift_of = 3, Mask_of = 8, const_of = False\<rparr> [8, 10]"
proof -
  define pA pB where "pA = \<lparr>unit_of = 0, Shift_of = 0, Mask_of = 7, const_of = False\<rparr>"
    and "pB = \<lparr>unit_of = 0, Shift_of = 3, Mask_of = 8, const_of = False\<rparr>"
  have h0: "0 < bits_of uint8" by code_simp
  have hM: "Mask uint8 (map Width abc) = Some [7, 8, 31]" by code_simp
  have hI: "(0::nat) < length abc" and hJ: "(1::nat) < length abc" by code_simp+
  have hne: "(0::nat) \<noteq> 1" by simp
  have hf: "fits_size_t (bits_of uint8) (map Width abc)" by code_simp
  have gA: "get_at uint8 abc 0 = Inr pA" unfolding pA_def by code_simp
  have gB: "get_at uint8 abc 1 = Inr pB" unfolding pB_def by code_simp
  have len: "length [8, 10::int] = dataSize (bits_of uint8) (map Width abc)" by code_simp
  have v: "is_value uint8 8" "is_value uint8 10" by code_simp+
  then have vs: "\<forall>x\<in>set [8, 10::int]. is_value uint8 x" by simp
  have e: "proxy_assign uint8 pA (Assign 5) [8, 10] = Inr [13, 10]" unfolding pA_def by code_simp
  have u: "FieldBegin (bits_of uint8) (map Width abc) ! 0 div bits_of uint8 =
           FieldBegin (bits_of uint8) (map Width abc) ! 1 div bits_of uint8"
    and u1: "FieldBegin (bits_of uint8) (map Width abc) ! 1 div bits_of uint8 = 0"
    and nr: "\<not> FieldBegin (bits_of uint8) (map Width abc) ! 1 + Width (abc ! 1)
              \<le> FieldBegin (bits_of uint8) (map Width abc) ! 0"
    by code_simp+
  note t = other_fields_unchanged [OF h0 hM hI hJ hne hf]
  have c1: "FieldBegin (bits_of uint8) (map Width abc) ! 0 + Width (abc ! 0)
     \<le> FieldBegin (bits_of uint8) (map Width abc) ! 1"
    using t [THEN conjunct1] nr by blast
  have c2: "(7::int) AND 8 = 0"
    using t [THEN conjunct2, THEN conjunct1] u by simp
  note t3 = t [THEN conjunct2, THEN conjunct2, rule_format, of pA "[8, 10]" "Assign 5" "[13, 10]"]
  have c34: "[13, 10] ! (FieldBegin (bits_of uint8) (map Width abc) ! 1 div bits_of uint8) AND [7, 8, 31] ! 1 =
       [8, 10] ! (FieldBegin (bits_of uint8) (map Width abc) ! 1 div bits_of uint8) AND [7, 8, 31::int] ! 1 \<and>
       (\<forall>q. get_at uint8 abc 1 = Inr q \<longrightarrow> proxy_read uint8 q [13, 10] = proxy_read uint8 q [8, 10])"
    using t3 gA len vs e by blast
  then have c3: "(13::int) AND 8 = 8 AND 8" unfolding u1 by simp
  have c4: "proxy_read uint8 pB [13, 10] = proxy_read uint8 pB [8, 10]"
    using c34 gB by blast
  show ?thesis
    using h0 hM hI hJ hne hf gA gB len v e c1 c2 c3 c4 unfolding pA_def pB_def by blast
qed

lemma wrapped_masks:
  "FieldBegin 8 [SIZE_MAX, 3] = [0, 0, 3]"
  "Mask_loop uint8 0 0 8 = Some 255"
  "Mask_loop uint8 0 0 3 = Some 7"
  "bits_of uint8 = 8"
  "min SIZE_MAX 8 = 8"
  by (simp add: layout_eval, code_simp, code_simp, code_simp, simp add: SIZE_MAX_def)

text \<open>
  The claim C2 as stated fails where the cursor wraps. Over \<^verbatim>\<open>std::uint8_t\<close> a 3-bit field
  behind a field of width \<^verbatim>\<open>SIZE_MAX\<close> begins at bit 0 as the first one does: the two bit
  ranges overlap, the masks 255 and 7 share the low three bits of unit 0, and assigning
  \<^verbatim>\<open>0xAA\<close> to the first field changes what the second one reads from 0 to 2.
\<close>

theorem wrapped_fields_counterexample:
  "FieldBegin (bits_of uint8) (map Width wrapped) = [0, 0, 3] \<and>
   \<not> FieldBegin (bits_of uint8) (map Width wrapped) ! 0 + Width (wrapped ! 0)
       \<le> FieldBegin (bits_of uint8) (map Width wrapped) ! 1 \<and>
   \<not> FieldBegin (bits_of uint8) (map Width wrapped) ! 1 + Width (wrapped ! 1)
       \<le> FieldBegin (bits_of uint8) (map Width wrapped) ! 0 \<and>
   Mask uint8 (map Width wrapped) = Some [255, 7] \<and>
   (255::int) AND 7 \<noteq> 0 \<and>
   get_at uint8 wrapped 0 = Inr \<lparr>unit_of = 0, Shift_of = 0, Mask_of = 255, const_of = False\<rparr> \<and>
   get_at uint8 wrapped 1 = Inr \<lparr>unit_of = 0, Shift_of = 0, Mask_of = 7, const_of = False\<rparr> \<and>
   dataSize (bits_of uint8) (map Width wrapped) = 1 \<and>
   proxy_assign uint8 \<lparr>unit_of = 0, Shift_of = 0, Mask_of = 255, const_of = False\<rparr> (Assign 170) [0]
     = Inr [170] \<and>
   proxy_read uint8 \<lparr>unit_of = 0, Shift_of = 0, Mask_of = 7, const_of = False\<rparr> [0] = Some 0 \<and>
   proxy_read uint8 \<lparr>unit_of = 0, Shift_of = 0, Mask_of = 7, const_of = False\<rparr> [170] = Some 2"
proof -
  have fb: "FieldBegin (bits_of uint8) (map Width wrapped) = [0, 0, 3]"
    by (simp add: wrapped_def wrapped_masks)
  have m: "Mask uint8 (map Width wrapped) = Some [255, 7]"
    by (simp add: Mask_def Mask_at_def wrapped_def wrapped_masks upt_rec)
  have ds: "dataSize (bits_of uint8) (map Width wrapped) = 1"
    by (simp add: wrapped_def wrapped_masks(4)) (simp add: layout_eval)
  have g: "get_at uint8 wrapped 0 = Inr \<lparr>unit_of = 0, Shift_of = 0, Mask_of = 255, const_of = False\<rparr>"
    "get_at uint8 wrapped 1 = Inr \<lparr>unit_of = 0, Shift_of = 0, Mask_of = 7, const_of = False\<rparr>"
    by (simp_all add: get_at_def m fb) (simp_all add: wrapped_def wrapped_masks(4))
  have w: "Width (wrapped ! 0) = SIZE_MAX" "Width (wrapped ! 1) = 3" by (simp_all add: wrapped_def)
  have r: "\<not> (0::nat) + SIZE_MAX \<le> 0" "\<not> (0::nat) + 3 \<le> 0" "(255::int) AND 7 \<noteq> 0"
    by (simp_all add: SIZE_MAX_def)
  have e: "proxy_assign uint8 \<lparr>unit_of = 0, Shift_of = 0, Mask_of = 255, const_of = False\<rparr> (Assign 170) [0]
     = Inr [170]"
    "proxy_read uint8 \<lparr>unit_of = 0, Shift_of = 0, Mask_of = 7, const_of = False\<rparr> [0] = Some 0"
    "proxy_read uint8 \<lparr>unit_of = 0, Shift_of = 0, Mask_of = 7, const_of = False\<rparr> [170] = Some 2"
    by code_simp+
  show ?thesis using m g ds r e unfolding fb w by simp
qed

section \<open>The claims about assignment and reading\<close>

text \<open>
  In the theorems of this section a field is reached as the program reaches it: through
  the proxy that \<^verbatim>\<open>get\<close> returns for it, on a storage \<open>D\<close> of \<^verbatim>\<open>dataSize()\<close> units. The
  width that counts is \<open>min W U\<close>, the number of mask bits the layout gives a field of
  width \<open>W\<close> over units of \<open>U\<close> bits. The list of widths satisfies \<open>fits_size_t\<close>, so that
  the layout does not wrap, and the base type is an integer type other than \<^verbatim>\<open>bool\<close>.
\<close>

text \<open>
  C1, as amended. In a layout whose list of widths satisfies \<open>fits_size_t\<close>, for every
  field of non-zero width \<open>W\<close> that \<^verbatim>\<open>get\<close> yields a writable accessor for, over an
  unsigned base type other than \<^verbatim>\<open>bool\<close> or the 32-bit signed one, and every value
  \<open>V\<close> representable in \<open>min W U\<close> bits: assigning \<open>V\<close> to the accessor and reading it back
  yields \<open>V\<close>, and the value read is the stored bit pattern of the field sign-extended
  from its width for the signed type and not extended for an unsigned one. (What a
  signed base type of another width reads back is left open here.)
\<close>

theorem assign_then_read:
  assumes acc: "get_at T Fields I = Inr p" and nf: "\<not> Fixed (Fields ! I)"
    and sg: "signed_of T \<longrightarrow> bits_of T = 32"
    and rep: "representable T (min (Width (Fields ! I)) (bits_of T)) V"
    and D: "length D = dataSize (bits_of T) (map Width Fields)"
    and fits: "fits_size_t (bits_of T) (map Width Fields)"
  shows "\<exists>D'. proxy_assign T p (Assign V) D = Inr D' \<and>
           proxy_read T p D' = Some V \<and>
           proxy_read T p D' =
             Some (low_bits T (min (Width (Fields ! I)) (bits_of T))
                    (drop_bit (Shift_of p) (D' ! unit_of p AND Mask_of p)))"
proof -
  define S M W where "S = Shift_of p" and "M = Mask_of p"
    and "W = min (Width (Fields ! I)) (bits_of T)"
  from get_at_shape [OF acc fits] obtain E where fb: "field_bits T S E M"
    and W0: "0 < Width (Fields ! I)"
    and E: "E = S + W \<or> (E = bits_of T \<and> 32 < bits_of T \<and> S + W = 32)"
    unfolding S_def M_def W_def by auto
  from proxy_assign_Assign [OF acc nf D fits, of V] obtain fld' where
    a: "assign T S M (D ! unit_of p) V = Some fld'"
    and pa: "proxy_assign T p (Assign V) D = Inr (D[unit_of p := fld'])"
    and len: "unit_of p < length D" unfolding S_def M_def by blast
  have SE: "S < E" "E \<le> bits_of T" using fb by (simp_all add: field_bits_def)
  have W: "0 < W" "W \<le> E - S" using W0 SE E by (auto simp add: W_def)
  have sE: "signed_of T \<Longrightarrow> E - S - 1 = W - 1" using sg E by auto
  have ok: "signed_of T \<longrightarrow> bits_of T \<le> 32" using sg by simp
  have "read T S M fld' =
      Some (if signed_of T then signed_take_bit (W - 1) V else take_bit (E - S) V)"
    using assign_read [OF fb ok a] sg sE by auto
  then have rd: "read T S M fld' = Some V"
    using low_bits_representable [OF rep [folded W_def] W] by simp
  have new: "is_value T fld'"
    using apply_assignment_frame(1) [of T S M "D ! unit_of p" "Assign V" fld'] a SE by simp
  have pat: "drop_bit S (fld' AND M) = take_bit (E - S) V"
  proof (rule bit_eqI)
    fix j
    show "bit (drop_bit S (fld' AND M)) j = bit (take_bit (E - S) V) j"
    proof (cases "j < E - S")
      case True
      then have "S + j < bits_of T" "S \<le> S + j \<and> S + j < E" using SE by simp_all
      then show ?thesis using bit_assign [OF fb a, of "S + j"] True
        by (simp add: bit_drop_bit_eq bit_and_iff bit_take_bit_iff bit_field_bits [OF fb])
    next
      case False
      then have "\<not> S + j < E" by linarith
      then show ?thesis using False
        by (simp add: bit_drop_bit_eq bit_and_iff bit_take_bit_iff bit_field_bits [OF fb])
    qed
  qed
  have "low_bits T W (take_bit (E - S) V) = V"
  proof (cases "signed_of T")
    case True
    then have "E - S = W" using sg E by auto
    moreover have "\<not> W \<le> W - 1" using W by linarith
    ultimately have "signed_take_bit (W - 1) (take_bit (E - S) V) = signed_take_bit (W - 1) V"
      by (simp only: signed_take_bit_take_bit if_False)
    then show ?thesis using True low_bits_representable [OF rep [folded W_def] W]
      by (simp add: low_bits_def)
  next
    case False
    have "min W (E - S) = W" using W by simp
    then have "take_bit W (take_bit (E - S) V) = take_bit W V" by simp
    moreover have "take_bit W V = V"
      using low_bits_representable [OF rep [folded W_def] W(1), of W] False by simp
    ultimately show ?thesis using False by (simp add: low_bits_def)
  qed
  then have lb: "low_bits T W (drop_bit S (fld' AND M)) = V" unfolding pat .
  have prx: "proxy_read T p (D[unit_of p := fld']) = read T S M fld'"
    using len by (simp add: proxy_read_def S_def M_def)
  have nth: "D[unit_of p := fld'] ! unit_of p = fld'" using len by simp
  show ?thesis
  proof (intro exI conjI)
    show "proxy_assign T p (Assign V) D = Inr (D[unit_of p := fld'])" by (rule pa)
    show "proxy_read T p (D[unit_of p := fld']) = Some V" unfolding prx by (rule rd)
    show "proxy_read T p (D[unit_of p := fld']) =
        Some (low_bits T (min (Width (Fields ! I)) (bits_of T))
               (drop_bit (Shift_of p) (D[unit_of p := fld'] ! unit_of p AND Mask_of p)))"
      unfolding prx nth rd S_def [symmetric] M_def [symmetric] W_def [symmetric] lb ..
  qed
qed

theorem assign_then_read_witness:
  "get_at int32 nibbles 0 = Inr \<lparr>unit_of = 0, Shift_of = 0, Mask_of = 15, const_of = False\<rparr> \<and>
   \<not> Fixed (nibbles ! 0) \<and> bits_of int32 = 32 \<and>
   representable int32 (min (Width (nibbles ! 0)) (bits_of int32)) (- 8) \<and>
   length [0::int] = dataSize (bits_of int32) (map Width nibbles) \<and>
   fits_size_t (bits_of int32) (map Width nibbles) \<and>
   proxy_assign int32 \<lparr>unit_of = 0, Shift_of = 0, Mask_of = 15, const_of = False\<rparr> (Assign (- 8)) [0]
     = Inr [8] \<and>
   proxy_read int32 \<lparr>unit_of = 0, Shift_of = 0, Mask_of = 15, const_of = False\<rparr> [8] = Some (- 8)"
proof -
  define p where "p = \<lparr>unit_of = 0, Shift_of = 0, Mask_of = 15, const_of = False\<rparr>"
  have h1: "get_at int32 nibbles 0 = Inr p" unfolding p_def by code_simp
  have h2: "\<not> Fixed (nibbles ! 0)" by code_simp
  have h3: "signed_of int32 \<longrightarrow> bits_of int32 = 32" by code_simp
  have h4: "representable int32 (min (Width (nibbles ! 0)) (bits_of int32)) (- 8)" by code_simp
  have h5: "length [0::int] = dataSize (bits_of int32) (map Width nibbles)" by code_simp
  have hf: "fits_size_t (bits_of int32) (map Width nibbles)" by code_simp
  have e: "proxy_assign int32 p (Assign (- 8)) [0] = Inr [8]" unfolding p_def by code_simp
  from assign_then_read [OF h1 h2 h3 h4 h5 hf] obtain D' where
    "proxy_assign int32 p (Assign (- 8)) [0] = Inr D'" and r: "proxy_read int32 p D' = Some (- 8)"
    by blast
  with e have "D' = [8]" by simp
  with r have "proxy_read int32 p [8] = Some (- 8)" by simp
  moreover have "bits_of int32 = 32" by code_simp
  ultimately show ?thesis using h1 h2 h4 h5 hf e unfolding p_def by blast
qed

text \<open>
  The claim C1 as stated fails for a field wider than its unit, which the class accepts
  by default and whose mask it clips to the unit: 256 is representable in the 12 bits
  of the field, and a 12-bit field over \<^verbatim>\<open>std::uint8_t\<close> reads back 0.
\<close>

theorem oversized_roundtrip_counterexample:
  "get_at uint8 wide 0 = Inr \<lparr>unit_of = 0, Shift_of = 0, Mask_of = 255, const_of = False\<rparr> \<and>
   Width (wide ! 0) = 12 \<and> representable uint8 12 256 \<and>
   proxy_assign uint8 \<lparr>unit_of = 0, Shift_of = 0, Mask_of = 255, const_of = False\<rparr> (Assign 256) [0, 0]
     = Inr [0, 0] \<and>
   proxy_read uint8 \<lparr>unit_of = 0, Shift_of = 0, Mask_of = 255, const_of = False\<rparr> [0, 0] = Some 0 \<and>
   proxy_read uint8 \<lparr>unit_of = 0, Shift_of = 0, Mask_of = 255, const_of = False\<rparr> [0, 0] \<noteq> Some 256"
  by code_simp

text \<open>
  C10, as amended. In a layout whose list of widths satisfies \<open>fits_size_t\<close>, for every
  field of width \<open>W\<close> that \<^verbatim>\<open>get\<close> yields a writable accessor for, over a base type of at
  most 32 bits that is unsigned and not \<^verbatim>\<open>bool\<close>, or the 32-bit signed one, and every
  value \<open>V\<close>, representable in the field or not: the assignment succeeds,
  under the mask the unit then holds \<open>(V << Shift) & Mask\<close>, no bit outside the mask and
  no other unit is changed, and a read of the field returns \<open>V\<close> reduced to its low
  \<open>min W U\<close> bits, read in two's complement for the signed type. (Signed base types of
  other widths and 64-bit base types are left open here.)
\<close>

theorem assign_truncates:
  assumes acc: "get_at T Fields I = Inr p" and nf: "\<not> Fixed (Fields ! I)"
    and U32: "bits_of T \<le> 32" and sg: "signed_of T \<longrightarrow> bits_of T = 32"
    and D: "length D = dataSize (bits_of T) (map Width Fields)" "\<forall>x\<in>set D. is_value T x"
    and fits: "fits_size_t (bits_of T) (map Width Fields)"
  shows "\<exists>D'. proxy_assign T p (Assign V) D = Inr D' \<and> length D' = length D \<and>
           D' ! unit_of p AND Mask_of p = push_bit (Shift_of p) V AND Mask_of p \<and>
           D' ! unit_of p AND NOT (Mask_of p) = D ! unit_of p AND NOT (Mask_of p) \<and>
           (\<forall>k. k \<noteq> unit_of p \<longrightarrow> D' ! k = D ! k) \<and>
           proxy_read T p D' = Some (low_bits T (min (Width (Fields ! I)) (bits_of T)) V)"
proof -
  define S M where "S = Shift_of p" and "M = Mask_of p"
  from get_at_shape [OF acc fits] U32 obtain E where fb: "field_bits T S E M"
    and E: "E = S + min (Width (Fields ! I)) (bits_of T)"
    unfolding S_def M_def by auto
  from proxy_assign_Assign [OF acc nf D(1) fits, of V] obtain fld' where
    a: "assign T S M (D ! unit_of p) V = Some fld'"
    and pa: "proxy_assign T p (Assign V) D = Inr (D[unit_of p := fld'])"
    and len: "unit_of p < length D" unfolding S_def M_def by blast
  have SE: "S < E" "E \<le> bits_of T" using fb by (simp_all add: field_bits_def)
  then have U: "0 < bits_of T" by simp
  have old: "is_value T (D ! unit_of p)" using D(2) len by simp
  have new: "is_value T fld'"
    using apply_assignment_frame(1) [OF U, of S M "D ! unit_of p" "Assign V" fld'] a by simp
  have bits: "bit fld' i \<longleftrightarrow> (if S \<le> i \<and> i < E then bit V (i - S) else bit (D ! unit_of p) i)"
    if "i < bits_of T" for i
    using bit_assign [OF fb a that] .
  have 1: "fld' AND M = push_bit S V AND M"
  proof (rule bit_eqI)
    fix i
    show "bit (fld' AND M) i = bit (push_bit S V AND M) i"
    proof (cases "S \<le> i \<and> i < E")
      case True
      then have "i < bits_of T" using SE by simp
      from bits [OF this] True show ?thesis
        by (simp add: bit_and_iff bit_push_bit_iff bit_field_bits [OF fb])
    next
      case False
      then show ?thesis by (auto simp add: bit_and_iff bit_field_bits [OF fb])
    qed
  qed
  have 2: "fld' AND NOT M = D ! unit_of p AND NOT M"
    by (rule value_outside_mask [OF fb new old]) (auto simp add: bits)
  have ok: "signed_of T \<longrightarrow> bits_of T \<le> 32" using U32 by simp
  have 3: "read T S M fld' = Some (low_bits T (min (Width (Fields ! I)) (bits_of T)) V)"
    using assign_read [OF fb ok a] sg E by (auto simp add: low_bits_def)
  show ?thesis
    using pa len 1 2 3 by (simp add: proxy_read_def S_def M_def)
qed

theorem assign_truncates_witness:
  "get_at uint8 abc 2 = Inr \<lparr>unit_of = 1, Shift_of = 0, Mask_of = 31, const_of = False\<rparr> \<and>
   \<not> Fixed (abc ! 2) \<and> bits_of uint8 \<le> 32 \<and> \<not> signed_of uint8 \<and>
   length [2, 0::int] = dataSize (bits_of uint8) (map Width abc) \<and>
   fits_size_t (bits_of uint8) (map Width abc) \<and>
   is_value uint8 2 \<and> is_value uint8 0 \<and>
   proxy_assign uint8 \<lparr>unit_of = 1, Shift_of = 0, Mask_of = 31, const_of = False\<rparr> (Assign 42) [2, 0]
     = Inr [2, 10] \<and>
   proxy_read uint8 \<lparr>unit_of = 1, Shift_of = 0, Mask_of = 31, const_of = False\<rparr> [2, 10] = Some 10 \<and>
   low_bits uint8 (min (Width (abc ! 2)) (bits_of uint8)) 42 = 10"
proof -
  define p where "p = \<lparr>unit_of = 1, Shift_of = 0, Mask_of = 31, const_of = False\<rparr>"
  have h1: "get_at uint8 abc 2 = Inr p" unfolding p_def by code_simp
  have h2: "\<not> Fixed (abc ! 2)" by code_simp
  have h3: "bits_of uint8 \<le> 32" by code_simp
  have h4: "signed_of uint8 \<longrightarrow> bits_of uint8 = 32" by code_simp
  have h5: "length [2, 0::int] = dataSize (bits_of uint8) (map Width abc)" by code_simp
  have hf: "fits_size_t (bits_of uint8) (map Width abc)" by code_simp
  have v: "is_value uint8 2" "is_value uint8 0" by code_simp+
  then have h6: "\<forall>x\<in>set [2, 0::int]. is_value uint8 x" by simp
  have e: "proxy_assign uint8 p (Assign 42) [2, 0] = Inr [2, 10]" unfolding p_def by code_simp
  have l: "low_bits uint8 (min (Width (abc ! 2)) (bits_of uint8)) 42 = 10" by code_simp
  from assign_truncates [OF h1 h2 h3 h4 h5 h6 hf, of 42] obtain D' where
    "proxy_assign uint8 p (Assign 42) [2, 0] = Inr D'"
    and r: "proxy_read uint8 p D' = Some (low_bits uint8 (min (Width (abc ! 2)) (bits_of uint8)) 42)"
    by blast
  with e have "D' = [2, 10]" by simp
  with r l have "proxy_read uint8 p [2, 10] = Some 10" by simp
  moreover have "\<not> signed_of uint8" by code_simp
  ultimately show ?thesis using h1 h2 h3 h5 hf v e l unfolding p_def by blast
qed

text \<open>
  The claim C10 as stated fails for a field wider than its unit: a 12-bit field over
  \<^verbatim>\<open>std::uint8_t\<close> keeps 8 bits of 511 and reads back 255, not the low 12 bits, 511.
\<close>

theorem oversized_truncation_counterexample:
  "get_at uint8 wide 0 = Inr \<lparr>unit_of = 0, Shift_of = 0, Mask_of = 255, const_of = False\<rparr> \<and>
   Width (wide ! 0) = 12 \<and>
   proxy_assign uint8 \<lparr>unit_of = 0, Shift_of = 0, Mask_of = 255, const_of = False\<rparr> (Assign 511) [0, 0]
     = Inr [255, 0] \<and>
   proxy_read uint8 \<lparr>unit_of = 0, Shift_of = 0, Mask_of = 255, const_of = False\<rparr> [255, 0] = Some 255 \<and>
   low_bits uint8 12 511 = 511 \<and>
   proxy_read uint8 \<lparr>unit_of = 0, Shift_of = 0, Mask_of = 255, const_of = False\<rparr> [255, 0]
     \<noteq> Some (low_bits uint8 (Width (wide ! 0)) 511)"
  by code_simp

section \<open>The claim about construction\<close>




section \<open>The claims about compound assignment and about rejection\<close>

text \<open>
  C7. The compound operators read the field through the conversion operator of the
  proxy. Over \<^verbatim>\<open>std::int8_t\<close> that read is not the sign extension of the field: the
  operands of the two shifts are promoted to \<^verbatim>\<open>int\<close>, and the shift to the left by
  \<^verbatim>\<open>MaskMsbOffset\<close>, counted from the most significant bit of the 8-bit type, does not
  reach the sign bit of an \<^verbatim>\<open>int\<close>. For the first of two 4-bit fields, holding the pattern
  \<open>1000\<close> after the assignment of \<open>- 8\<close>, the read yields 8; \<^verbatim>\<open>/= 2\<close> stores the pattern
  \<open>0100\<close> and \<^verbatim>\<open>%= 3\<close> the pattern \<open>0010\<close>, where dividing the sign-extended value \<open>- 8\<close>
  gives \<open>- 4\<close> and \<open>- 2\<close>, the patterns \<open>1100\<close> and \<open>1110\<close>. Over \<^verbatim>\<open>std::int32_t\<close> the same
  field reads \<open>- 8\<close>, and the two operators store \<open>1100\<close> and \<open>1110\<close>.
\<close>

theorem narrow_signed_division:
  "get int8 nibbles 0 = Inr \<lparr>unit_of = 0, Shift_of = 0, Mask_of = 15, const_of = False\<rparr> \<and>
   Data int8 nibbles = Some [0] \<and>
   proxy_assign int8 \<lparr>unit_of = 0, Shift_of = 0, Mask_of = 15, const_of = False\<rparr> (Assign (- 8)) [0] = Inr [8] \<and>
   proxy_read int8 \<lparr>unit_of = 0, Shift_of = 0, Mask_of = 15, const_of = False\<rparr> [8] = Some 8 \<and>
   proxy_assign int8 \<lparr>unit_of = 0, Shift_of = 0, Mask_of = 15, const_of = False\<rparr> (ArithAssign Divide 2) [8] = Inr [4] \<and>
   proxy_assign int8 \<lparr>unit_of = 0, Shift_of = 0, Mask_of = 15, const_of = False\<rparr> (ArithAssign Modulo 3) [8] = Inr [2] \<and>
   low_bits int8 4 (drop_bit 0 (8 AND 15)) = - 8 \<and>
   arith_op (promote int8) Divide (- 8) 2 = Some (- 4) \<and>
   arith_op (promote int8) Modulo (- 8) 3 = Some (- 2) \<and>
   proxy_assign int8 \<lparr>unit_of = 0, Shift_of = 0, Mask_of = 15, const_of = False\<rparr> (Assign (- 4)) [8] = Inr [12] \<and>
   proxy_assign int8 \<lparr>unit_of = 0, Shift_of = 0, Mask_of = 15, const_of = False\<rparr> (Assign (- 2)) [8] = Inr [14] \<and>
   get int32 nibbles 0 = Inr \<lparr>unit_of = 0, Shift_of = 0, Mask_of = 15, const_of = False\<rparr> \<and>
   proxy_read int32 \<lparr>unit_of = 0, Shift_of = 0, Mask_of = 15, const_of = False\<rparr> [8] = Some (- 8) \<and>
   proxy_assign int32 \<lparr>unit_of = 0, Shift_of = 0, Mask_of = 15, const_of = False\<rparr> (ArithAssign Divide 2) [8] = Inr [12] \<and>
   proxy_assign int32 \<lparr>unit_of = 0, Shift_of = 0, Mask_of = 15, const_of = False\<rparr> (ArithAssign Modulo 3) [8] = Inr [14]"
  by code_simp

text \<open>
  C8. For a signed underlying type \<^verbatim>\<open>operator>>=\<close> shifts the value read through the
  conversion operator of the proxy, which over \<^verbatim>\<open>std::int8_t\<close> is not sign-extended (as
  for C7). For the first of two 4-bit fields holding the pattern \<open>1000\<close>, \<^verbatim>\<open>>>= 1\<close> stores
  the pattern \<open>0100\<close>, the result of a logical shift and the same as over
  \<^verbatim>\<open>std::uint8_t\<close>, where the arithmetic shift of the sign-extended value \<open>- 8\<close> gives
  \<open>- 4\<close>, the pattern \<open>1100\<close>. Over \<^verbatim>\<open>std::int32_t\<close> the operator stores \<open>1100\<close>.
\<close>

theorem narrow_signed_shift_right:
  "get int8 nibbles 0 = Inr \<lparr>unit_of = 0, Shift_of = 0, Mask_of = 15, const_of = False\<rparr> \<and>
   proxy_assign int8 \<lparr>unit_of = 0, Shift_of = 0, Mask_of = 15, const_of = False\<rparr> (Assign (- 8)) [0] = Inr [8] \<and>
   proxy_read int8 \<lparr>unit_of = 0, Shift_of = 0, Mask_of = 15, const_of = False\<rparr> [8] = Some 8 \<and>
   proxy_assign int8 \<lparr>unit_of = 0, Shift_of = 0, Mask_of = 15, const_of = False\<rparr> (ShrAssign 1) [8] = Inr [4] \<and>
   low_bits int8 4 (drop_bit 0 (8 AND 15)) = - 8 \<and>
   shr (promote int8) (- 8) 1 = Some (- 4) \<and>
   proxy_assign int8 \<lparr>unit_of = 0, Shift_of = 0, Mask_of = 15, const_of = False\<rparr> (Assign (- 4)) [8] = Inr [12] \<and>
   proxy_read int32 \<lparr>unit_of = 0, Shift_of = 0, Mask_of = 15, const_of = False\<rparr> [8] = Some (- 8) \<and>
   proxy_assign int32 \<lparr>unit_of = 0, Shift_of = 0, Mask_of = 15, const_of = False\<rparr> (ShrAssign 1) [8] = Inr [12] \<and>
   proxy_assign uint8 \<lparr>unit_of = 0, Shift_of = 0, Mask_of = 15, const_of = False\<rparr> (ShrAssign 1) [8] = Inr [4]"
  by code_simp

text \<open>
  C9. The proxy type rejects a mask that is not greater than zero. Over a signed base
  type the mask of a field that contains the most significant bit of the unit is
  negative, so \<^verbatim>\<open>get\<close> rejects the field as a \<^verbatim>\<open>member of size zero\<close> although it is not
  fixed and its width is not zero: the second of two 4-bit fields over \<^verbatim>\<open>std::int8_t\<close>
  (which \<^verbatim>\<open>get\<close> yields an accessor for over \<^verbatim>\<open>std::uint8_t\<close>), and the 28-bit field after
  a 4-bit one over \<^verbatim>\<open>std::int32_t\<close>.
\<close>

theorem sign_bit_field_rejected:
  "\<not> Fixed (nibbles ! 1) \<and> Width (nibbles ! 1) = 4 \<and>
   Mask int8 (map Width nibbles) = Some [15, - 16] \<and>
   get int8 nibbles 1 = Inl size_zero_member \<and>
   get uint8 nibbles 1 = Inr \<lparr>unit_of = 0, Shift_of = 4, Mask_of = 240, const_of = False\<rparr> \<and>
   \<not> Fixed (sign_field ! 1) \<and> Width (sign_field ! 1) = 28 \<and>
   Mask int32 (map Width sign_field) = Some [15, - 16] \<and>
   get int32 sign_field 1 = Inl size_zero_member"
  by code_simp

end
